theory Spec2Isabelle
  imports Main
begin

section \<open>Data model\<close>

text \<open>
  The Go package builds a tree of \<^verbatim>\<open>*context\<close> nodes linked by parent pointers and
  mutates them through \<^verbatim>\<open>*Spec\<close> handles. Pointers are addresses into an explicit
  store: the store is a list of nodes, an address is an index, allocation appends.
  Go has no dangling pointers, so an address that a handle holds is always below the
  length of the store.
\<close>

type_synonym addr = nat

text \<open>The values a Go \<^verbatim>\<open>panic\<close> carries in this package: the message constants of the
  source (the formatted arguments of the last two are left out), the panic for an
  undefined variable that the specification names, and a panic raised by user code (a
  hook, a test body, a let block).\<close>

datatype panic =
    hookWarning
  | parallelWarn
  | varWarning
  | panicMessageForLetValue
  | unsupportedTestingType
  | undefinedVariable string
  | userPanic string

text \<open>
  Modelled from the spec: the per-case context object \<^verbatim>\<open>T\<close> (its declaration is not
  part of the sources at hand). It holds the per-execution variable cache (the
  VariableResolver: a mapping from variable name to already-computed value) and the
  state \<open>'w\<close> that user code can observe and change.
\<close>

record ('v, 'w) T =
  cache :: "string \<rightharpoonup> 'v"
  world :: 'w

text \<open>User callbacks. Go functions mutate through the \<^verbatim>\<open>*T\<close> pointer and may panic:
  each callback returns the updated \<open>T\<close> together with its result or the panic.\<close>

type_synonym ('v, 'w) teardownBlock = "('v, 'w) T \<Rightarrow> panic option \<times> ('v, 'w) T"
type_synonym ('v, 'w) testCaseBlock = "('v, 'w) T \<Rightarrow> panic option \<times> ('v, 'w) T"
type_synonym ('v, 'w) hookBlock = "('v, 'w) T \<Rightarrow> (panic + ('v, 'w) teardownBlock) \<times> ('v, 'w) T"
type_synonym ('v, 'w) letBlock = "('v, 'w) T \<Rightarrow> (panic + 'v) \<times> ('v, 'w) T"

text \<open>
  Modelled from the spec: the struct \<^verbatim>\<open>variables\<close> behind \<^verbatim>\<open>context.vars\<close> (its
  declaration is not part of the sources at hand; \<^verbatim>\<open>context.let\<close> writes its field
  \<^verbatim>\<open>defs\<close>). The spec's VariableTable: a mapping from variable name to a factory.
\<close>

record ('v, 'w) variables =
  defs :: "string \<rightharpoonup> ('v, 'w) letBlock"

definition newVariables :: "('v, 'w) variables" where
  "newVariables = \<lparr>defs = Map.empty\<rparr>"

text \<open>\<^verbatim>\<open>type context struct\<close> of context.go.\<close>

record ('v, 'w) context_node =
  vars :: "('v, 'w) variables"
  parent :: "addr option"
  hooks :: "('v, 'w) hookBlock list"
  parallel :: bool
  immutable :: bool
  description :: string

type_synonym ('v, 'w) heap = "('v, 'w) context_node list"

definition newContext :: "('v, 'w) context_node" where
  "newContext =
     \<lparr>vars = newVariables, parent = None, hooks = [], parallel = False,
      immutable = False, description = ''''\<rparr>"

text \<open>The host runner handed to \<^verbatim>\<open>NewSpec\<close>: a \<^verbatim>\<open>*testing.T\<close>, a \<^verbatim>\<open>*testing.B\<close> with its
  iteration count \<^verbatim>\<open>b.N\<close>, or any other implementation of \<^verbatim>\<open>testing.TB\<close>.\<close>

datatype testingTB = testing_T | testing_B nat | testing_other

record Spec =
  testingTB :: testingTB
  ctx :: addr

section \<open>context.go\<close>

definition context_let ::
  "('v, 'w) heap \<Rightarrow> addr \<Rightarrow> string \<Rightarrow> ('v, 'w) letBlock \<Rightarrow> ('v, 'w) heap" where
  "context_let h c varName letBlock =
     h[c := (h ! c)\<lparr>vars := (vars (h ! c))\<lparr>defs := (defs (vars (h ! c)))(varName \<mapsto> letBlock)\<rparr>\<rparr>]"

text \<open>The loop of \<^verbatim>\<open>allLinkListElement\<close>: prepend the current node, follow the parent
  pointer while there is one. On a cyclic store the Go loop never ends; then the result
  is \<open>None\<close>.\<close>

partial_function (option) allLinkListElement_loop ::
  "('v, 'w) heap \<Rightarrow> addr \<Rightarrow> addr list \<Rightarrow> addr list option" where
  "allLinkListElement_loop h current contexts =
     (case parent (h ! current) of
        Some p \<Rightarrow> allLinkListElement_loop h p (current # contexts)
      | None \<Rightarrow> Some (current # contexts))"

declare allLinkListElement_loop.simps [code]

definition allLinkListElement :: "('v, 'w) heap \<Rightarrow> addr \<Rightarrow> addr list option" where
  "allLinkListElement h c = allLinkListElement_loop h c []"

fun isParallel_loop :: "('v, 'w) heap \<Rightarrow> addr list \<Rightarrow> bool" where
  "isParallel_loop h [] = False"
| "isParallel_loop h (c # cs) = (if parallel (h ! c) then True else isParallel_loop h cs)"

definition isParallel :: "('v, 'w) heap \<Rightarrow> addr \<Rightarrow> bool option" where
  "isParallel h c = map_option (isParallel_loop h) (allLinkListElement h c)"

definition addHook ::
  "('v, 'w) heap \<Rightarrow> addr \<Rightarrow> ('v, 'w) hookBlock \<Rightarrow> panic + ('v, 'w) heap" where
  "addHook h c hk =
     (if immutable (h ! c) then Inl hookWarning
      else Inr (h[c := (h ! c)\<lparr>hooks := hooks (h ! c) @ [hk]\<rparr>]))"

section \<open>The Spec API\<close>

definition NewSpec :: "testingTB \<Rightarrow> ('v, 'w) heap \<Rightarrow> ('v, 'w) heap \<times> Spec" where
  "NewSpec tb h = (h @ [newContext], \<lparr>testingTB = tb, ctx = length h\<rparr>)"

definition newSubSpec :: "('v, 'w) heap \<Rightarrow> Spec \<Rightarrow> string \<Rightarrow> ('v, 'w) heap \<times> Spec" where
  "newSubSpec h spec desc =
     (let h1 = h[ctx spec := (h ! ctx spec)\<lparr>immutable := True\<rparr>];
          subCTX = newContext\<lparr>parent := Some (ctx spec), description := desc\<rparr>
      in (h1 @ [subCTX], \<lparr>testingTB = testingTB spec, ctx = length h1\<rparr>))"

definition Context ::
  "('v, 'w) heap \<Rightarrow> Spec \<Rightarrow> string \<Rightarrow> (('v, 'w) heap \<Rightarrow> Spec \<Rightarrow> 'r) \<Rightarrow> 'r" where
  "Context h spec desc testContextBlock =
     (case newSubSpec h spec desc of (h', sub) \<Rightarrow> testContextBlock h' sub)"

text \<open>The closure that \<^verbatim>\<open>Before\<close> hands to \<^verbatim>\<open>addHook\<close>: it runs the block and returns
  the teardown action that does nothing.\<close>

definition Before_hook :: "('v, 'w) testCaseBlock \<Rightarrow> ('v, 'w) hookBlock" where
  "Before_hook beforeBlock =
     (\<lambda>t. case beforeBlock t of
             (Some p, t') \<Rightarrow> (Inl p, t')
           | (None, t') \<Rightarrow> (Inr (\<lambda>t. (None, t)), t'))"

definition Before ::
  "('v, 'w) heap \<Rightarrow> Spec \<Rightarrow> ('v, 'w) testCaseBlock \<Rightarrow> panic + ('v, 'w) heap" where
  "Before h spec beforeBlock = addHook h (ctx spec) (Before_hook beforeBlock)"

text \<open>The closure that \<^verbatim>\<open>After\<close> hands to \<^verbatim>\<open>addHook\<close>: it does nothing up front and
  returns the block as teardown action.\<close>

definition After_hook :: "('v, 'w) testCaseBlock \<Rightarrow> ('v, 'w) hookBlock" where
  "After_hook afterBlock = (\<lambda>t. (Inr (\<lambda>t'. afterBlock t'), t))"

definition After ::
  "('v, 'w) heap \<Rightarrow> Spec \<Rightarrow> ('v, 'w) testCaseBlock \<Rightarrow> panic + ('v, 'w) heap" where
  "After h spec afterBlock = addHook h (ctx spec) (After_hook afterBlock)"

definition Around ::
  "('v, 'w) heap \<Rightarrow> Spec \<Rightarrow> ('v, 'w) hookBlock \<Rightarrow> panic + ('v, 'w) heap" where
  "Around h spec aroundBlock = addHook h (ctx spec) aroundBlock"

definition Parallel :: "('v, 'w) heap \<Rightarrow> Spec \<Rightarrow> panic + ('v, 'w) heap" where
  "Parallel h spec =
     (if immutable (h ! ctx spec) then Inl parallelWarn
      else Inr (h[ctx spec := (h ! ctx spec)\<lparr>parallel := True\<rparr>]))"

definition Let' ::
  "('v, 'w) heap \<Rightarrow> Spec \<Rightarrow> string \<Rightarrow> ('v, 'w) letBlock \<Rightarrow> panic + ('v, 'w) heap" where
  "Let' h spec varName letBlock =
     (if immutable (h ! ctx spec) then Inl varWarning
      else Inr (context_let h (ctx spec) varName letBlock))"

text \<open>\<^verbatim>\<open>reflect.Kind\<close> of the Go standard library, and the table \<^verbatim>\<open>acceptedConstKind\<close>.\<close>

datatype Kind =
    reflect_Invalid | reflect_Bool
  | reflect_Int | reflect_Int8 | reflect_Int16 | reflect_Int32 | reflect_Int64
  | reflect_Uint | reflect_Uint8 | reflect_Uint16 | reflect_Uint32 | reflect_Uint64
  | reflect_Uintptr
  | reflect_Float32 | reflect_Float64 | reflect_Complex64 | reflect_Complex128
  | reflect_Array | reflect_Chan | reflect_Func | reflect_Interface | reflect_Map
  | reflect_Ptr | reflect_Slice | reflect_String | reflect_Struct | reflect_UnsafePointer

definition acceptedConstKind :: "Kind set" where
  "acceptedConstKind =
     {reflect_String, reflect_Bool,
      reflect_Int, reflect_Int8, reflect_Int16, reflect_Int32, reflect_Int64,
      reflect_Uint, reflect_Uint8, reflect_Uint16, reflect_Uint32, reflect_Uint64,
      reflect_Float32, reflect_Float64, reflect_Complex64, reflect_Complex128}"

text \<open>\<^verbatim>\<open>LetValue\<close>; the parameter \<open>kindOf\<close> is \<^verbatim>\<open>reflect.ValueOf(value).Kind()\<close>.\<close>

definition LetValue ::
  "('v \<Rightarrow> Kind) \<Rightarrow> ('v, 'w) heap \<Rightarrow> Spec \<Rightarrow> string \<Rightarrow> 'v \<Rightarrow> panic + ('v, 'w) heap" where
  "LetValue kindOf h spec varName val =
     (if kindOf val \<notin> acceptedConstKind then Inl panicMessageForLetValue
      else Let' h spec varName (\<lambda>t. (Inr val, t)))"

definition NoSideEffect :: "('v, 'w) heap \<Rightarrow> Spec \<Rightarrow> panic + ('v, 'w) heap" where
  "NoSideEffect h spec = Parallel h spec"

section \<open>The per-case context and the execution engine\<close>

text \<open>
  Modelled from the spec: \<^verbatim>\<open>newT\<close>, \<^verbatim>\<open>T.setup\<close>, \<^verbatim>\<open>T.teardown\<close> and the variable
  lookup \<^verbatim>\<open>T.I\<close> are called by \<^verbatim>\<open>runTestCase\<close> and by user code, but their file is not
  part of the sources at hand. The definitions below follow sections 4.2 to 4.4 of the
  specification.
\<close>

text \<open>Modelled from the spec: \<^verbatim>\<open>newT\<close> creates the per-case context with an empty
  VariableResolver; \<open>w\<close> is the state of the world when the case starts.\<close>

definition newT :: "'w \<Rightarrow> ('v, 'w) T" where
  "newT w = \<lparr>cache = Map.empty, world = w\<rparr>"

text \<open>Modelled from the spec: CollectHooks (4.2) concatenates each node's hooks in
  chain order.\<close>

definition CollectHooks :: "('v, 'w) heap \<Rightarrow> addr list \<Rightarrow> ('v, 'w) hookBlock list" where
  "CollectHooks h chain = concat (map (\<lambda>a. hooks (h ! a)) chain)"

text \<open>Modelled from the spec: RunCase step 2 (4.3). Each hook is invoked with the per-case
  context and the teardown action it returns is pushed on the teardown stack (the head
  of the list is the top of the stack). A hook that panics ends the setup.\<close>

fun setup_hooks ::
  "('v, 'w) hookBlock list \<Rightarrow> ('v, 'w) teardownBlock list \<Rightarrow> ('v, 'w) T \<Rightarrow>
     panic option \<times> ('v, 'w) teardownBlock list \<times> ('v, 'w) T" where
  "setup_hooks [] stack t = (None, stack, t)"
| "setup_hooks (hook # rest) stack t =
     (case hook t of
        (Inl p, t') \<Rightarrow> (Some p, stack, t')
      | (Inr td, t') \<Rightarrow> setup_hooks rest (td # stack) t')"

text \<open>Modelled from the spec: \<^verbatim>\<open>T.setup\<close> is RunCase steps 1 and 2 (4.3): the chain of the
  leaf, built by \<^verbatim>\<open>allLinkListElement\<close>, then the hooks collected along it.\<close>

definition T_setup ::
  "('v, 'w) heap \<Rightarrow> addr \<Rightarrow> ('v, 'w) teardownBlock list \<Rightarrow> ('v, 'w) T \<Rightarrow>
     (panic option \<times> ('v, 'w) teardownBlock list \<times> ('v, 'w) T) option" where
  "T_setup h c stack t =
     (case allLinkListElement h c of
        None \<Rightarrow> None
      | Some allCTX \<Rightarrow> Some (setup_hooks (CollectHooks h allCTX) stack t))"

text \<open>Modelled from the spec: RunCase step 5 (4.3). Every teardown action is popped and
  invoked, last pushed first; a teardown action that panics does not stop the others, and
  the panics are recorded in the order they were raised.\<close>

fun T_teardown ::
  "('v, 'w) teardownBlock list \<Rightarrow> ('v, 'w) T \<Rightarrow> panic list \<times> ('v, 'w) T" where
  "T_teardown [] t = ([], t)"
| "T_teardown (td # stack) t =
     (case td t of
        (None, t') \<Rightarrow> T_teardown stack t'
      | (Some p, t') \<Rightarrow> (case T_teardown stack t' of (ps, t'') \<Rightarrow> (p # ps, t'')))"

text \<open>Modelled from the spec: Resolve (4.4). The chain is walked from the leaf toward
  the root (the argument is the leaf-first chain) and the first node whose table has the
  name gives the factory.\<close>

fun lookup_definition ::
  "('v, 'w) heap \<Rightarrow> addr list \<Rightarrow> string \<Rightarrow> ('v, 'w) letBlock option" where
  "lookup_definition h [] name = None"
| "lookup_definition h (a # as) name =
     (case defs (vars (h ! a)) name of
        Some f \<Rightarrow> Some f
      | None \<Rightarrow> lookup_definition h as name)"

text \<open>Modelled from the spec: Resolve (4.4) for the leaf whose root-first chain is
  \<open>allCTX\<close>: an undefined name is a panic; the first resolution of a name invokes the
  factory and stores the result; a later one returns the stored result.\<close>

definition Resolve ::
  "('v, 'w) heap \<Rightarrow> addr list \<Rightarrow> string \<Rightarrow> ('v, 'w) T \<Rightarrow> (panic + 'v) \<times> ('v, 'w) T" where
  "Resolve h allCTX name t =
     (case lookup_definition h (rev allCTX) name of
        None \<Rightarrow> (Inl (undefinedVariable name), t)
      | Some factory \<Rightarrow>
          (case cache t name of
             Some v \<Rightarrow> (Inr v, t)
           | None \<Rightarrow>
               (case factory t of
                  (Inl p, t') \<Rightarrow> (Inl p, t')
                | (Inr v, t') \<Rightarrow> (Inr v, t'\<lparr>cache := (cache t')(name \<mapsto> v)\<rparr>))))"

section \<open>runTestCase\<close>

text \<open>\<^verbatim>\<open>strings.Join\<close> of the Go standard library.\<close>

fun strings_Join :: "string list \<Rightarrow> string \<Rightarrow> string" where
  "strings_Join [] sep = ''''"
| "strings_Join [x] sep = x"
| "strings_Join (x # y # ys) sep = x @ sep @ strings_Join (y # ys) sep"

definition getTestCaseName :: "('v, 'w) heap \<Rightarrow> Spec \<Rightarrow> string option" where
  "getTestCaseName h spec =
     map_option (\<lambda>allCTX. strings_Join (map (\<lambda>c. description (h ! c)) (tl allCTX)) ''_'')
       (allLinkListElement h (ctx spec))"

text \<open>The calls that \<^verbatim>\<open>runTestCase\<close> makes on the host runner besides \<^verbatim>\<open>Run\<close>.\<close>

datatype tb_call = tb_Parallel | tb_ResetTimer | tb_RunParallel | tb_StopTimer

text \<open>What one call of the function handed to \<^verbatim>\<open>tb.Run\<close> leaves behind: the name of the
  sub-case, the calls made on the host runner, the panic that left the setup or the
  test body (if any), the panics raised by teardown actions, the final state of the
  per-case context, and whether the process was killed: a panic in a goroutine other than
  the one that runs the function ends the Go process at once, and nothing that the
  function deferred runs.\<close>

record ('v, 'w) run =
  testCaseName :: string
  tb_calls :: "tb_call list"
  panicked :: "panic option"
  teardown_panics :: "panic list"
  final :: "('v, 'w) T"
  process_killed :: bool

text \<open>The loop \<^verbatim>\<open>for i := 0; i < b.N; i++ { test(testCase) }\<close>; a panic leaves it.\<close>

fun iterations ::
  "nat \<Rightarrow> ('v, 'w) testCaseBlock \<Rightarrow> ('v, 'w) T \<Rightarrow> panic option \<times> ('v, 'w) T" where
  "iterations 0 test testCase = (None, testCase)"
| "iterations (Suc n) test testCase =
     (case test testCase of
        (Some p, t') \<Rightarrow> (Some p, t')
      | (None, t') \<Rightarrow> iterations n test t')"

text \<open>
  The function handed to \<^verbatim>\<open>tb.Run\<close> for a \<^verbatim>\<open>*testing.T\<close>. Setup, \<^verbatim>\<open>t.Parallel()\<close> and the
  test body run in the goroutine of the function, so the deferred
  \<^verbatim>\<open>testCase.teardown()\<close> runs on every way out, also when the setup or the test body
  panics. The result is \<open>None\<close> when a walk over the parent pointers never ends.
\<close>

definition run_T ::
  "('v, 'w) heap \<Rightarrow> Spec \<Rightarrow> ('v, 'w) testCaseBlock \<Rightarrow> string \<Rightarrow> 'w \<Rightarrow> ('v, 'w) run option" where
  "run_T h spec test name w =
     (case T_setup h (ctx spec) [] (newT w) of
        None \<Rightarrow> None
      | Some (Some p, defers, t1) \<Rightarrow>
          (case T_teardown defers t1 of
             (ps, t2) \<Rightarrow>
               Some \<lparr>testCaseName = name, tb_calls = [], panicked = Some p,
                     teardown_panics = ps, final = t2, process_killed = False\<rparr>)
      | Some (None, defers, t1) \<Rightarrow>
          (case isParallel h (ctx spec) of
             None \<Rightarrow> None
           | Some par \<Rightarrow>
               (case test t1 of
                  (pb, t2) \<Rightarrow>
                    (case T_teardown defers t2 of
                       (ps, t3) \<Rightarrow>
                         Some \<lparr>testCaseName = name,
                               tb_calls = (if par then [tb_Parallel] else []),
                               panicked = pb, teardown_panics = ps, final = t3,
                               process_killed = False\<rparr>))))"

text \<open>
  The function handed to \<^verbatim>\<open>tb.Run\<close> for a \<^verbatim>\<open>*testing.B\<close> with \<^verbatim>\<open>b.N = N\<close>. The deferred
  \<^verbatim>\<open>b.StopTimer()\<close> is registered only after the setup. Without the parallel flag the
  \<^verbatim>\<open>b.N\<close> loop runs in the goroutine of the function, and a panic of the body unwinds
  through the two deferred calls. With the flag the body runs in goroutines that
  \<^verbatim>\<open>b.RunParallel\<close> starts; they share the one \<^verbatim>\<open>testCase\<close>, and their \<^verbatim>\<open>b.N\<close> iterations
  are taken one after another here. A panic of the body in such a goroutine kills the
  process: neither \<^verbatim>\<open>b.StopTimer()\<close> nor \<^verbatim>\<open>testCase.teardown()\<close> runs.
\<close>

definition run_B ::
  "('v, 'w) heap \<Rightarrow> Spec \<Rightarrow> ('v, 'w) testCaseBlock \<Rightarrow> string \<Rightarrow> nat \<Rightarrow> 'w \<Rightarrow>
     ('v, 'w) run option" where
  "run_B h spec test name N w =
     (case T_setup h (ctx spec) [] (newT w) of
        None \<Rightarrow> None
      | Some (Some p, defers, t1) \<Rightarrow>
          (case T_teardown defers t1 of
             (ps, t2) \<Rightarrow>
               Some \<lparr>testCaseName = name, tb_calls = [], panicked = Some p,
                     teardown_panics = ps, final = t2, process_killed = False\<rparr>)
      | Some (None, defers, t1) \<Rightarrow>
          (case isParallel h (ctx spec) of
             None \<Rightarrow> None
           | Some True \<Rightarrow>
               (case iterations N test t1 of
                  (Some p, t2) \<Rightarrow>
                    Some \<lparr>testCaseName = name,
                          tb_calls = [tb_ResetTimer, tb_RunParallel],
                          panicked = Some p, teardown_panics = [], final = t2,
                          process_killed = True\<rparr>
                | (None, t2) \<Rightarrow>
                    (case T_teardown defers t2 of
                       (ps, t3) \<Rightarrow>
                         Some \<lparr>testCaseName = name,
                               tb_calls = [tb_ResetTimer, tb_RunParallel, tb_StopTimer],
                               panicked = None, teardown_panics = ps, final = t3,
                               process_killed = False\<rparr>))
           | Some False \<Rightarrow>
               (case iterations N test t1 of
                  (pb, t2) \<Rightarrow>
                    (case T_teardown defers t2 of
                       (ps, t3) \<Rightarrow>
                         Some \<lparr>testCaseName = name,
                               tb_calls = [tb_ResetTimer, tb_StopTimer],
                               panicked = pb, teardown_panics = ps, final = t3,
                               process_killed = False\<rparr>))))"

text \<open>\<^verbatim>\<open>runTestCase\<close>: the type switch on the host runner.\<close>

definition runTestCase ::
  "('v, 'w) heap \<Rightarrow> Spec \<Rightarrow> ('v, 'w) testCaseBlock \<Rightarrow> 'w \<Rightarrow> (panic + ('v, 'w) run) option" where
  "runTestCase h spec test w =
     (case testingTB spec of
        testing_T \<Rightarrow>
          (case getTestCaseName h spec of
             None \<Rightarrow> None
           | Some name \<Rightarrow> map_option Inr (run_T h spec test name w))
      | testing_B N \<Rightarrow>
          (case getTestCaseName h spec of
             None \<Rightarrow> None
           | Some name \<Rightarrow> map_option Inr (run_B h spec test name N w))
      | testing_other \<Rightarrow> Some (Inl unsupportedTestingType))"

definition Test ::
  "('v, 'w) heap \<Rightarrow> Spec \<Rightarrow> string \<Rightarrow> ('v, 'w) testCaseBlock \<Rightarrow> 'w \<Rightarrow>
     ('v, 'w) heap \<times> (panic + ('v, 'w) run) option" where
  "Test h spec desc test w =
     (case newSubSpec h spec desc of (h', sub) \<Rightarrow> (h', runTestCase h' sub test w))"

text \<open>The aliases: \<^verbatim>\<open>fmt.Sprintf(`%s %s`, prefix, desc)\<close> puts the prefix and a blank before
  the description.\<close>

definition Describe ::
  "('v, 'w) heap \<Rightarrow> Spec \<Rightarrow> string \<Rightarrow> (('v, 'w) heap \<Rightarrow> Spec \<Rightarrow> 'r) \<Rightarrow> 'r" where
  "Describe h spec subjectTopic specification =
     Context h spec (''describe'' @ '' '' @ subjectTopic) specification"

definition When ::
  "('v, 'w) heap \<Rightarrow> Spec \<Rightarrow> string \<Rightarrow> (('v, 'w) heap \<Rightarrow> Spec \<Rightarrow> 'r) \<Rightarrow> 'r" where
  "When h spec desc testContextBlock =
     Context h spec (''when'' @ '' '' @ desc) testContextBlock"

definition And ::
  "('v, 'w) heap \<Rightarrow> Spec \<Rightarrow> string \<Rightarrow> (('v, 'w) heap \<Rightarrow> Spec \<Rightarrow> 'r) \<Rightarrow> 'r" where
  "And h spec desc testContextBlock =
     Context h spec (''and'' @ '' '' @ desc) testContextBlock"

definition Then ::
  "('v, 'w) heap \<Rightarrow> Spec \<Rightarrow> string \<Rightarrow> ('v, 'w) testCaseBlock \<Rightarrow> 'w \<Rightarrow>
     ('v, 'w) heap \<times> (panic + ('v, 'w) run) option" where
  "Then h spec desc test w = Test h spec (''then'' @ '' '' @ desc) test w"

section \<open>The notions the claims are stated with\<close>

text \<open>Nodes are allocated in strictly descending order: a parent pointer always points
  to a node allocated earlier.\<close>

definition wf_heap :: "('v, 'w) heap \<Rightarrow> bool" where
  "wf_heap h \<longleftrightarrow> (\<forall>a<length h. \<forall>p. parent (h ! a) = Some p \<longrightarrow> p < a)"

text \<open>\<open>linked h p as\<close>: the first node of \<open>as\<close> has parent pointer \<open>p\<close>, and every other
  node of \<open>as\<close> has its predecessor in the list as parent.\<close>

fun linked :: "('v, 'w) heap \<Rightarrow> addr option \<Rightarrow> addr list \<Rightarrow> bool" where
  "linked h p [] = True"
| "linked h p (a # as) = (parent (h ! a) = p \<and> linked h (Some a) as)"

text \<open>The root-to-leaf ancestor chain of \<open>leaf\<close>: it starts at a node without parent,
  each node is the parent of the next, and it ends at \<open>leaf\<close>.\<close>

definition root_first_chain :: "('v, 'w) heap \<Rightarrow> addr list \<Rightarrow> addr \<Rightarrow> bool" where
  "root_first_chain h chain leaf \<longleftrightarrow> chain \<noteq> [] \<and> last chain = leaf \<and> linked h None chain"

text \<open>The stores that the exported API can build, one call at a time. A handle always
  holds an allocated address.\<close>

inductive api_step :: "('v, 'w) heap \<Rightarrow> ('v, 'w) heap \<Rightarrow> bool" where
  step_NewSpec: "api_step h (fst (NewSpec tb h))"
| step_newSubSpec: "ctx spec < length h \<Longrightarrow> api_step h (fst (newSubSpec h spec desc))"
| step_Around: "ctx spec < length h \<Longrightarrow> Around h spec hk = Inr h' \<Longrightarrow> api_step h h'"
| step_Let: "ctx spec < length h \<Longrightarrow> Let' h spec varName letBlock = Inr h' \<Longrightarrow> api_step h h'"
| step_Parallel: "ctx spec < length h \<Longrightarrow> Parallel h spec = Inr h' \<Longrightarrow> api_step h h'"

definition api_steps :: "('v, 'w) heap \<Rightarrow> ('v, 'w) heap \<Rightarrow> bool" where
  "api_steps = api_step\<^sup>*\<^sup>*"

definition built :: "('v, 'w) heap \<Rightarrow> bool" where
  "built h \<longleftrightarrow> api_steps [] h"

definition has_child :: "('v, 'w) heap \<Rightarrow> addr \<Rightarrow> bool" where
  "has_child h a \<longleftrightarrow> (\<exists>b<length h. parent (h ! b) = Some a)"

text \<open>The order the claims speak of, written out: the hooks run one after the other from
  the front of the list, each on the state the previous one left, and the teardown
  actions they return are listed in the order the hooks ran. \<open>None\<close> when a hook panics.\<close>

fun setups_in_order ::
  "('v, 'w) hookBlock list \<Rightarrow> ('v, 'w) T \<Rightarrow> (('v, 'w) teardownBlock list \<times> ('v, 'w) T) option" where
  "setups_in_order [] t = Some ([], t)"
| "setups_in_order (hook # rest) t =
     (case hook t of
        (Inl p, t') \<Rightarrow> None
      | (Inr td, t') \<Rightarrow>
          (case setups_in_order rest t' of
             None \<Rightarrow> None
           | Some (tds, t'') \<Rightarrow> Some (td # tds, t'')))"

text \<open>The actions of a list invoked one after the other from the front of the list, each
  on the state the previous one left; an action that panics does not stop the others,
  and the panics are collected in the order they were raised.\<close>

fun teardowns_in_order ::
  "('v, 'w) teardownBlock list \<Rightarrow> ('v, 'w) T \<Rightarrow> panic list \<times> ('v, 'w) T" where
  "teardowns_in_order [] t = ([], t)"
| "teardowns_in_order (td # tds) t =
     (case td t of
        (p, t') \<Rightarrow>
          (case teardowns_in_order tds t' of
             (ps, t'') \<Rightarrow> ((case p of None \<Rightarrow> ps | Some x \<Rightarrow> x # ps), t'')))"

text \<open>What \<^verbatim>\<open>runTestCase\<close> does with the test body between setup and teardown: one call
  for a test, \<^verbatim>\<open>b.N\<close> calls on the same \<^verbatim>\<open>testCase\<close> for a benchmark.\<close>

definition run_body ::
  "testingTB \<Rightarrow> ('v, 'w) testCaseBlock \<Rightarrow> ('v, 'w) T \<Rightarrow> panic option \<times> ('v, 'w) T" where
  "run_body tb test t = (case tb of testing_B N \<Rightarrow> iterations N test t | _ \<Rightarrow> test t)"

text \<open>Whether the test body runs in goroutines that \<^verbatim>\<open>b.RunParallel\<close> starts: on a
  benchmark whose chain has the parallel flag (\<open>par\<close>).\<close>

definition body_in_goroutines :: "testingTB \<Rightarrow> bool \<Rightarrow> bool" where
  "body_in_goroutines tb par = (case tb of testing_B N \<Rightarrow> par | _ \<Rightarrow> False)"

text \<open>Whether a run asked the host runner for parallel execution: \<^verbatim>\<open>t.Parallel()\<close> for a
  test, \<^verbatim>\<open>b.RunParallel\<close> for a benchmark.\<close>

definition requests_parallel :: "('v, 'w) run \<Rightarrow> bool" where
  "requests_parallel r \<longleftrightarrow> tb_Parallel \<in> set (tb_calls r) \<or> tb_RunParallel \<in> set (tb_calls r)"


text \<open>A node is immutable exactly when a child was opened from it, and parents are
  allocated before their children.\<close>

definition tree_inv :: "('v, 'w) heap \<Rightarrow> bool" where
  "tree_inv h \<longleftrightarrow> wf_heap h \<and> (\<forall>a<length h. immutable (h ! a) \<longleftrightarrow> has_child h a)"

section \<open>Example specifications\<close>

text \<open>A few Go values with their \<^verbatim>\<open>reflect.Kind\<close>, for the examples.\<close>

datatype go_value =
    go_int int
  | go_string string
  | go_bool bool
  | go_uintptr nat
  | go_slice "go_value list"
  | go_nil

fun kind_of :: "go_value \<Rightarrow> Kind" where
  "kind_of (go_int i) = reflect_Int"
| "kind_of (go_string s) = reflect_String"
| "kind_of (go_bool b) = reflect_Bool"
| "kind_of (go_uintptr n) = reflect_Uintptr"
| "kind_of (go_slice vs) = reflect_Slice"
| "kind_of go_nil = reflect_Invalid"

text \<open>In the examples the world is a log of strings; \<open>say s\<close> is a block that appends
  \<open>s\<close> to the log.\<close>

type_synonym ex_heap = "(go_value, string list) heap"

definition say :: "string \<Rightarrow> (go_value, string list) testCaseBlock" where
  "say s t = (None, t\<lparr>world := world t @ [s]\<rparr>)"

text \<open>\<^verbatim>\<open>s := NewSpec(t)\<close>, and then \<^verbatim>\<open>s.Context("child", ...)\<close>.\<close>

definition ex_root_heap :: ex_heap where
  "ex_root_heap = fst (NewSpec testing_T [])"

definition ex_root :: Spec where
  "ex_root = snd (NewSpec testing_T ([] :: ex_heap))"

definition ex_opened_heap :: ex_heap where
  "ex_opened_heap = fst (newSubSpec ex_root_heap ex_root ''child'')"

definition ex_child :: Spec where
  "ex_child = snd (newSubSpec ex_root_heap ex_root ''child'')"

text \<open>
  \<^verbatim>\<open>s.Before(B1); s.After(A1); s.Context("child", func(s) { s.Before(B2); s.After(A2);
  s.Test("leaf", ...) })\<close>: the store when the test case runs, and the handle of the leaf.
\<close>

definition ex_hooks_heap :: ex_heap where
  "ex_hooks_heap =
     (let h1 = projr (Before ex_root_heap ex_root (say ''B1''));
          h2 = projr (After h1 ex_root (say ''A1''));
          h3 = fst (newSubSpec h2 ex_root ''child'');
          h4 = projr (Before h3 ex_child (say ''B2''));
          h5 = projr (After h4 ex_child (say ''A2''))
      in fst (newSubSpec h5 ex_child ''leaf''))"

definition ex_leaf :: Spec where
  "ex_leaf = \<lparr>testingTB = testing_T, ctx = 2\<rparr>"

text \<open>A test body that logs and then panics, and a hook that logs and then panics.\<close>

definition ex_panicking_body :: "(go_value, string list) testCaseBlock" where
  "ex_panicking_body t = (Some (userPanic ''boom''), t\<lparr>world := world t @ [''body'']\<rparr>)"

definition ex_panicking_hook :: "(go_value, string list) hookBlock" where
  "ex_panicking_hook t = (Inl (userPanic ''no setup''), t\<lparr>world := world t @ [''P'']\<rparr>)"

text \<open>
  \<^verbatim>\<open>s.Before(B1); s.After(A1); s.Context("child", func(s) { s.Around(P); s.After(A2);
  s.Test("leaf", ...) })\<close> where the hook P panics.
\<close>

definition ex_panic_heap :: ex_heap where
  "ex_panic_heap =
     (let h1 = projr (Before ex_root_heap ex_root (say ''B1''));
          h2 = projr (After h1 ex_root (say ''A1''));
          h3 = fst (newSubSpec h2 ex_root ''child'');
          h4 = projr (Around h3 ex_child ex_panicking_hook);
          h5 = projr (After h4 ex_child (say ''A2''))
      in fst (newSubSpec h5 ex_child ''leaf''))"

text \<open>\<^verbatim>\<open>s.Parallel(); s.Context("child", func(s) { s.Test("leaf", ...) })\<close>.\<close>

definition ex_parallel_heap :: ex_heap where
  "ex_parallel_heap =
     (let h1 = projr (Parallel ex_root_heap ex_root);
          h2 = fst (newSubSpec h1 ex_root ''child'')
      in fst (newSubSpec h2 ex_child ''leaf''))"

text \<open>A factory whose every call is visible: it logs, and its value is the length of the
  log at the call.\<close>

definition ex_counting_factory :: "(go_value, string list) letBlock" where
  "ex_counting_factory t =
     (Inr (go_int (int (length (world t)))), t\<lparr>world := world t @ [''made x'']\<rparr>)"

text \<open>\<^verbatim>\<open>s.Let("x", counting); s.Test("bench", ...)\<close> on a benchmark with \<^verbatim>\<open>b.N = 2\<close>.\<close>

definition ex_bench_heap :: ex_heap where
  "ex_bench_heap =
     (let h1 = projr (Let' ex_root_heap ex_root ''x'' ex_counting_factory)
      in fst (newSubSpec h1 ex_root ''bench''))"

definition ex_bench_leaf :: Spec where
  "ex_bench_leaf = \<lparr>testingTB = testing_B 2, ctx = 1\<rparr>"

text \<open>A test body that reads the variable \<^verbatim>\<open>x\<close> of the leaf and logs what it got.\<close>

definition ex_reading_body :: "(go_value, string list) testCaseBlock" where
  "ex_reading_body t =
     (case Resolve ex_bench_heap [0, 1] ''x'' t of
        (Inl p, t') \<Rightarrow> (Some p, t')
      | (Inr v, t') \<Rightarrow>
          (None, t'\<lparr>world := world t' @ [if v = go_int 0 then ''read 0'' else ''read other'']\<rparr>))"

text \<open>
  \<^verbatim>\<open>s.LetValue("x", 1); s.Context("A", func(s) { s.LetValue("x", 2) }); s.Context("B",
  func(s) {})\<close>: the root is node 0, A is node 1, B is node 2.
\<close>

definition ex_shadow_heap :: ex_heap where
  "ex_shadow_heap =
     (let h1 = projr (LetValue kind_of ex_root_heap ex_root ''x'' (go_int 1));
          h2 = fst (newSubSpec h1 ex_root ''A'');
          h3 = projr (LetValue kind_of h2 ex_child ''x'' (go_int 2))
      in fst (newSubSpec h3 ex_root ''B''))"

text \<open>
  \<^verbatim>\<open>s.Parallel(); s.Before(B1); s.After(A1); s.Context("child", func(s) { s.Before(B2);
  s.After(A2); s.Test("leaf", ...) })\<close>, and the leaf as a benchmark with \<^verbatim>\<open>b.N = 1\<close> and
  with \<^verbatim>\<open>b.N = 3\<close>.
\<close>

definition ex_parallel_hooks_heap :: ex_heap where
  "ex_parallel_hooks_heap =
     (let h0 = projr (Parallel ex_root_heap ex_root);
          h1 = projr (Before h0 ex_root (say ''B1''));
          h2 = projr (After h1 ex_root (say ''A1''));
          h3 = fst (newSubSpec h2 ex_root ''child'');
          h4 = projr (Before h3 ex_child (say ''B2''));
          h5 = projr (After h4 ex_child (say ''A2''))
      in fst (newSubSpec h5 ex_child ''leaf''))"

definition ex_parallel_bench_leaf :: Spec where
  "ex_parallel_bench_leaf = \<lparr>testingTB = testing_B 1, ctx = 2\<rparr>"

definition ex_parallel_bench3_leaf :: Spec where
  "ex_parallel_bench3_leaf = \<lparr>testingTB = testing_B 3, ctx = 2\<rparr>"

text \<open>A test body that logs, and panics from its second call on.\<close>

definition ex_flaky_body :: "(go_value, string list) testCaseBlock" where
  "ex_flaky_body t =
     ((if ''body'' \<in> set (world t) then Some (userPanic ''boom'') else None),
      t\<lparr>world := world t @ [''body'']\<rparr>)"

text \<open>\<^verbatim>\<open>s.Parallel(); s.Context("child", func(s) { s.Around(P); s.Test("leaf", ...) })\<close>
  where the hook P panics.\<close>

definition ex_parallel_panic_heap :: ex_heap where
  "ex_parallel_panic_heap =
     (let h1 = projr (Parallel ex_root_heap ex_root);
          h2 = fst (newSubSpec h1 ex_root ''child'');
          h3 = projr (Around h2 ex_child ex_panicking_hook)
      in fst (newSubSpec h3 ex_child ''leaf''))"



section \<open>Properties of the model\<close>

subsection \<open>The loop of allLinkListElement\<close>

lemma linked_snoc:
  "linked h q (xs @ [a]) \<longleftrightarrow>
     linked h q xs \<and> parent (h ! a) = (if xs = [] then q else Some (last xs))"
  by (induction xs arbitrary: q) auto

lemma loop_of_chain:
  "linked h None pre \<Longrightarrow> pre \<noteq> [] \<Longrightarrow>
   allLinkListElement_loop h (last pre) acc = Some (pre @ acc)"
proof (induction pre arbitrary: acc rule: rev_induct)
  case Nil
  then show ?case by simp
next
  case (snoc a xs)
  from snoc.prems have lk: "linked h None xs"
    and par: "parent (h ! a) = (if xs = [] then None else Some (last xs))"
    by (simp_all add: linked_snoc)
  show ?case
  proof (cases "xs = []")
    case True
    with par show ?thesis by (subst allLinkListElement_loop.simps) simp
  next
    case False
    with par have "allLinkListElement_loop h a acc = allLinkListElement_loop h (last xs) (a # acc)"
      by (subst allLinkListElement_loop.simps) simp
    also have "\<dots> = Some (xs @ a # acc)" using snoc.IH[OF lk False] .
    finally show ?thesis by simp
  qed
qed

lemma allLinkListElement_chain:
  "root_first_chain h chain leaf \<Longrightarrow> allLinkListElement h leaf = Some chain"
  using loop_of_chain[of h chain "[]"]
  by (simp add: root_first_chain_def allLinkListElement_def)

lemma chain_exists:
  "wf_heap h \<Longrightarrow> a < length h \<Longrightarrow>
   \<exists>chain. root_first_chain h chain a \<and> (\<forall>x\<in>set chain. x \<le> a)"
proof (induction a rule: less_induct)
  case (less a)
  show ?case
  proof (cases "parent (h ! a)")
    case None
    then have "root_first_chain h [a] a" by (simp add: root_first_chain_def)
    then show ?thesis by (intro exI[of _ "[a]"]) simp
  next
    case (Some p)
    with less.prems have pa: "p < a" by (auto simp: wf_heap_def)
    with less.prems have "p < length h" by simp
    from less.IH[OF pa less.prems(1) this] obtain pre where
      pre: "root_first_chain h pre p" "\<forall>x\<in>set pre. x \<le> p" by blast
    have "root_first_chain h (pre @ [a]) a"
      using pre(1) Some by (simp add: root_first_chain_def linked_snoc)
    moreover have "\<forall>x\<in>set (pre @ [a]). x \<le> a" using pre(2) pa by auto
    ultimately show ?thesis by blast
  qed
qed

lemma chain_unique:
  "linked h None xs \<Longrightarrow> linked h None ys \<Longrightarrow> xs \<noteq> [] \<Longrightarrow> ys \<noteq> [] \<Longrightarrow>
   last xs = last ys \<Longrightarrow> xs = ys"
proof (induction xs arbitrary: ys rule: rev_induct)
  case Nil
  then show ?case by simp
next
  case (snoc a xs)
  from snoc.prems(4,5) obtain ys' where ys: "ys = ys' @ [a]"
    by (cases ys rule: rev_cases) auto
  from snoc.prems(1) have x1: "linked h None xs"
    and x2: "parent (h ! a) = (if xs = [] then None else Some (last xs))"
    by (simp_all add: linked_snoc)
  from snoc.prems(2) ys have y1: "linked h None ys'"
    and y2: "parent (h ! a) = (if ys' = [] then None else Some (last ys'))"
    by (simp_all add: linked_snoc)
  show ?case
  proof (cases "xs = []")
    case True
    with x2 y2 have "ys' = []" by (auto split: if_splits)
    with True ys show ?thesis by simp
  next
    case False
    with x2 y2 have "ys' \<noteq> []" "last xs = last ys'" by (auto split: if_splits)
    with snoc.IH[OF x1 y1 False] ys show ?thesis by simp
  qed
qed

lemma isParallel_loop_iff: "isParallel_loop h cs \<longleftrightarrow> (\<exists>c\<in>set cs. parallel (h ! c))"
  by (induction cs) auto

lemma isParallel_chain:
  "root_first_chain h chain leaf \<Longrightarrow> isParallel h leaf = Some (\<exists>c\<in>set chain. parallel (h ! c))"
  by (simp add: isParallel_def allLinkListElement_chain isParallel_loop_iff)

subsection \<open>The stack of teardown actions\<close>

lemma setup_hooks_in_order:
  "setups_in_order hs t = Some (tds, t1) \<Longrightarrow>
   setup_hooks hs stack t = (None, rev tds @ stack, t1)"
proof (induction hs arbitrary: t tds stack)
  case Nil
  then show ?case by simp
next
  case (Cons hook rest)
  from Cons.prems obtain td t' tds' where
    hk: "hook t = (Inr td, t')" and rest: "setups_in_order rest t' = Some (tds', t1)"
    and tds: "tds = td # tds'"
    by (auto split: prod.splits sum.splits option.splits)
  from Cons.IH[OF rest, of "td # stack"] hk tds show ?case by simp
qed

lemma setup_hooks_panic:
  "setups_in_order pre t = Some (tds, t1) \<Longrightarrow> hook t1 = (Inl p, t2) \<Longrightarrow>
   setup_hooks (pre @ hook # post) stack t = (Some p, rev tds @ stack, t2)"
proof (induction pre arbitrary: t tds stack)
  case Nil
  then show ?case by simp
next
  case (Cons hk rest)
  from Cons.prems(1) obtain td t' tds' where
    hk: "hk t = (Inr td, t')" and rest: "setups_in_order rest t' = Some (tds', t1)"
    and tds: "tds = td # tds'"
    by (auto split: prod.splits sum.splits option.splits)
  from Cons.IH[OF rest Cons.prems(2), of "td # stack"] hk tds show ?case by simp
qed

lemma T_teardown_in_order: "T_teardown stack t = teardowns_in_order stack t"
  by (induction stack arbitrary: t) (auto split: prod.splits option.splits)

subsection \<open>Invariants of the stores the API builds\<close>

lemma api_step_length: "api_step h h' \<Longrightarrow> length h \<le> length h'"
  by (induction rule: api_step.induct)
     (auto simp: NewSpec_def newSubSpec_def Let_def Let'_def Around_def addHook_def Parallel_def
        context_let_def split: if_splits)

lemma api_step_parent:
  "api_step h h' \<Longrightarrow> a < length h \<Longrightarrow> parent (h' ! a) = parent (h ! a)"
  by (induction rule: api_step.induct)
     (auto simp: NewSpec_def newSubSpec_def Around_def addHook_def Parallel_def
        context_let_def Let_def Let'_def nth_append nth_list_update split: if_splits)

lemma api_step_immutable:
  "api_step h h' \<Longrightarrow> a < length h \<Longrightarrow> immutable (h ! a) \<Longrightarrow> immutable (h' ! a)"
  by (induction rule: api_step.induct)
     (auto simp: NewSpec_def newSubSpec_def Around_def addHook_def Parallel_def
        context_let_def Let_def Let'_def nth_append nth_list_update split: if_splits)

lemma api_steps_immutable:
  "api_steps h h' \<Longrightarrow> a < length h \<Longrightarrow> immutable (h ! a) \<Longrightarrow>
   a < length h' \<and> immutable (h' ! a)"
  unfolding api_steps_def
proof (induction rule: rtranclp_induct)
  case base
  then show ?case by simp
next
  case (step y z)
  then have "a < length y" "immutable (y ! a)" by simp_all
  with step.hyps(2) show ?case
    using api_step_length[of y z] api_step_immutable[of y z a] by simp
qed

lemma has_child_snoc:
  "has_child (h @ [n]) a \<longleftrightarrow> has_child h a \<or> parent n = Some a"
proof
  assume "has_child (h @ [n]) a"
  then obtain b where b: "b < Suc (length h)" "parent ((h @ [n]) ! b) = Some a"
    unfolding has_child_def by auto
  show "has_child h a \<or> parent n = Some a"
  proof (cases "b < length h")
    case True
    with b(2) have "parent (h ! b) = Some a" by (simp add: nth_append)
    with True show ?thesis unfolding has_child_def by blast
  next
    case False
    with b(1) have "b = length h" by simp
    with b(2) show ?thesis by simp
  qed
next
  assume "has_child h a \<or> parent n = Some a"
  then show "has_child (h @ [n]) a"
  proof
    assume "has_child h a"
    then obtain b where "b < length h" "parent (h ! b) = Some a"
      unfolding has_child_def by blast
    then have "b < length (h @ [n])" "parent ((h @ [n]) ! b) = Some a"
      by (simp_all add: nth_append)
    then show ?thesis unfolding has_child_def by blast
  next
    assume "parent n = Some a"
    then have "length h < length (h @ [n])" "parent ((h @ [n]) ! length h) = Some a"
      by simp_all
    then show ?thesis unfolding has_child_def by blast
  qed
qed

lemma wf_heap_no_child_above: "wf_heap h \<Longrightarrow> length h \<le> a \<Longrightarrow> \<not> has_child h a"
  unfolding wf_heap_def has_child_def by fastforce

lemma wf_heap_snoc:
  assumes "wf_heap h" "\<And>p. parent n = Some p \<Longrightarrow> p < length h"
  shows "wf_heap (h @ [n])"
  unfolding wf_heap_def
proof (intro allI impI)
  fix a p assume a: "a < length (h @ [n])" and p: "parent ((h @ [n]) ! a) = Some p"
  show "p < a"
  proof (cases "a < length h")
    case True
    with p assms(1) show ?thesis by (simp add: nth_append wf_heap_def)
  next
    case False
    with a have "a = length h" by simp
    with p assms(2)[of p] show ?thesis by simp
  qed
qed

lemma tree_inv_alloc:
  assumes "tree_inv h" "\<not> immutable n"
    and "\<And>p. parent n = Some p \<Longrightarrow> p < length h \<and> immutable (h ! p)"
  shows "tree_inv (h @ [n])"
proof -
  from assms(1) have wf: "wf_heap h"
    and inv: "\<And>a. a < length h \<Longrightarrow> immutable (h ! a) \<longleftrightarrow> has_child h a"
    by (simp_all add: tree_inv_def)
  have wf': "wf_heap (h @ [n])"
    using wf assms(3) by (intro wf_heap_snoc) simp_all
  have "immutable ((h @ [n]) ! a) \<longleftrightarrow> has_child (h @ [n]) a" if a: "a < length (h @ [n])" for a
  proof (cases "a < length h")
    case True
    have "parent n = Some a \<Longrightarrow> immutable (h ! a)" using assms(3) by simp
    then show ?thesis using True inv[OF True] by (auto simp: nth_append has_child_snoc)
  next
    case False
    with a have eq: "a = length h" by simp
    have "\<not> has_child (h @ [n]) (length h)"
      using wf_heap_no_child_above[OF wf'] wf_heap_no_child_above[OF wf, of "length h"] assms(3)
      by (auto simp: has_child_snoc)
    with eq assms(2) show ?thesis by simp
  qed
  with wf' show ?thesis by (simp add: tree_inv_def)
qed


lemma nth_update_parent:
  "parent n = parent (h ! c) \<Longrightarrow> parent (h[c := n] ! a) = parent (h ! a)"
  by (cases "a = c"; cases "c < length h") (simp_all add: list_update_beyond)

lemma has_child_update:
  "parent n = parent (h ! c) \<Longrightarrow> has_child (h[c := n]) a = has_child h a"
  unfolding has_child_def by (simp add: nth_update_parent)

lemma wf_heap_update:
  "parent n = parent (h ! c) \<Longrightarrow> wf_heap (h[c := n]) = wf_heap h"
  unfolding wf_heap_def by (simp add: nth_update_parent)

lemma tree_inv_update:
  assumes "tree_inv h" "parent n = parent (h ! c)" "immutable n = immutable (h ! c)"
  shows "tree_inv (h[c := n])"
proof -
  have imm: "immutable (h[c := n] ! a) = immutable (h ! a)" if "a < length h" for a
    using that assms(3) by (cases "a = c") simp_all
  show ?thesis
    using assms(1,2) imm by (simp add: tree_inv_def wf_heap_update has_child_update)
qed

lemma tree_inv_open:
  assumes "tree_inv h" "c < length h" "\<not> immutable n" "parent n = Some c"
  shows "tree_inv (h[c := (h ! c)\<lparr>immutable := True\<rparr>] @ [n])"
proof -
  let ?h1 = "h[c := (h ! c)\<lparr>immutable := True\<rparr>]"
  from assms(1) have wf: "wf_heap h"
    and inv: "\<And>a. a < length h \<Longrightarrow> immutable (h ! a) \<longleftrightarrow> has_child h a"
    by (simp_all add: tree_inv_def)
  have wf1: "wf_heap ?h1" using wf by (simp add: wf_heap_update)
  have wf': "wf_heap (?h1 @ [n])"
    using wf1 assms(2,4) by (intro wf_heap_snoc) simp_all
  have hc: "has_child (?h1 @ [n]) a \<longleftrightarrow> has_child h a \<or> a = c" for a
    using assms(4) by (auto simp: has_child_snoc has_child_update)
  have "immutable ((?h1 @ [n]) ! a) \<longleftrightarrow> has_child (?h1 @ [n]) a" if a: "a < length (?h1 @ [n])" for a
  proof (cases "a < length h")
    case True
    then have "immutable ((?h1 @ [n]) ! a) \<longleftrightarrow> immutable (h ! a) \<or> a = c"
      by (cases "a = c") (simp_all add: nth_append)
    with inv[OF True] hc show ?thesis by simp
  next
    case False
    with a have eq: "a = length h" by simp
    have "\<not> has_child h (length h)" using wf_heap_no_child_above[OF wf] by simp
    with eq assms(2,3) hc show ?thesis by (simp add: nth_append)
  qed
  with wf' show ?thesis by (simp add: tree_inv_def)
qed

lemma tree_inv_step: "api_step h h' \<Longrightarrow> tree_inv h \<Longrightarrow> tree_inv h'"
proof (induction rule: api_step.induct)
  case (step_NewSpec h tb)
  then show ?case
    using tree_inv_alloc[of h newContext] by (simp add: NewSpec_def newContext_def)
next
  case (step_newSubSpec spec h desc)
  then show ?case
    using tree_inv_open[of h "ctx spec" "newContext\<lparr>parent := Some (ctx spec), description := desc\<rparr>"]
    by (simp add: newSubSpec_def Let_def newContext_def)
next
  case (step_Around spec h hk h')
  from step_Around.hyps(2)
  have "h' = h[ctx spec := (h ! ctx spec)\<lparr>hooks := hooks (h ! ctx spec) @ [hk]\<rparr>]"
    by (simp add: Around_def addHook_def split: if_splits)
  with step_Around.prems show ?case by (simp add: tree_inv_update)
next
  case (step_Let spec h varName letBlock h')
  from step_Let.hyps(2) have "h' = context_let h (ctx spec) varName letBlock"
    by (simp add: Let'_def split: if_splits)
  with step_Let.prems show ?case by (simp add: context_let_def tree_inv_update)
next
  case (step_Parallel spec h h')
  from step_Parallel.hyps(2)
  have "h' = h[ctx spec := (h ! ctx spec)\<lparr>parallel := True\<rparr>]"
    by (simp add: Parallel_def split: if_splits)
  with step_Parallel.prems show ?case by (simp add: tree_inv_update)
qed

lemma tree_inv_empty: "tree_inv []"
  by (simp add: tree_inv_def wf_heap_def)

lemma built_tree_inv: "built h \<Longrightarrow> tree_inv h"
  unfolding built_def api_steps_def
  by (induction rule: rtranclp_induct) (simp_all add: tree_inv_empty tree_inv_step)

lemma built_wf_heap: "built h \<Longrightarrow> wf_heap h"
  using built_tree_inv by (auto simp: tree_inv_def)

lemma built_chain:
  "built h \<Longrightarrow> a < length h \<Longrightarrow> \<exists>chain. root_first_chain h chain a"
  using chain_exists[OF built_wf_heap] by blast


subsection \<open>What runTestCase computes\<close>

lemma runTestCase_completed:
  assumes chain: "root_first_chain h chain (ctx spec)"
    and setups: "setups_in_order (CollectHooks h chain) (newT w) = Some (tds, t1)"
    and body: "run_body (testingTB spec) test t1 = (pb, t2)"
    and tb: "testingTB spec \<noteq> testing_other"
    and alive: "pb = None \<or>
                \<not> body_in_goroutines (testingTB spec) (\<exists>c\<in>set chain. parallel (h ! c))"
  shows "runTestCase h spec test w =
     Some (Inr \<lparr>testCaseName = strings_Join (map (\<lambda>c. description (h ! c)) (tl chain)) ''_'',
                tb_calls =
                  (case testingTB spec of
                     testing_B N \<Rightarrow>
                       if \<exists>c\<in>set chain. parallel (h ! c)
                       then [tb_ResetTimer, tb_RunParallel, tb_StopTimer]
                       else [tb_ResetTimer, tb_StopTimer]
                   | _ \<Rightarrow> if \<exists>c\<in>set chain. parallel (h ! c) then [tb_Parallel] else []),
                panicked = pb,
                teardown_panics = fst (teardowns_in_order (rev tds) t2),
                final = snd (teardowns_in_order (rev tds) t2),
                process_killed = False\<rparr>)"
proof (cases "testingTB spec")
  case testing_T
  with body have "test t1 = (pb, t2)" by (simp add: run_body_def)
  then show ?thesis
    using testing_T setup_hooks_in_order[OF setups, of "[]"]
    by (simp add: runTestCase_def getTestCaseName_def run_T_def T_setup_def
          allLinkListElement_chain[OF chain] isParallel_chain[OF chain]
          T_teardown_in_order split: prod.splits)
next
  case (testing_B N)
  with body have its: "iterations N test t1 = (pb, t2)" by (simp add: run_body_def)
  show ?thesis
  proof (cases "\<exists>c\<in>set chain. parallel (h ! c)")
    case True
    with alive testing_B have "pb = None" by (simp add: body_in_goroutines_def)
    with its True show ?thesis
      using testing_B setup_hooks_in_order[OF setups, of "[]"]
      by (simp add: runTestCase_def getTestCaseName_def run_B_def T_setup_def
            allLinkListElement_chain[OF chain] isParallel_chain[OF chain]
            T_teardown_in_order split: prod.splits)
  next
    case False
    with its show ?thesis
      using testing_B setup_hooks_in_order[OF setups, of "[]"]
      by (simp add: runTestCase_def getTestCaseName_def run_B_def T_setup_def
            allLinkListElement_chain[OF chain] isParallel_chain[OF chain]
            T_teardown_in_order split: prod.splits)
  qed
next
  case testing_other
  with tb show ?thesis by simp
qed

lemma runTestCase_killed:
  assumes chain: "root_first_chain h chain (ctx spec)"
    and setups: "setups_in_order (CollectHooks h chain) (newT w) = Some (tds, t1)"
    and tb: "testingTB spec = testing_B N"
    and par: "\<exists>c\<in>set chain. parallel (h ! c)"
    and body: "iterations N test t1 = (Some p, t2)"
  shows "runTestCase h spec test w =
     Some (Inr \<lparr>testCaseName = strings_Join (map (\<lambda>c. description (h ! c)) (tl chain)) ''_'',
                tb_calls = [tb_ResetTimer, tb_RunParallel],
                panicked = Some p,
                teardown_panics = [],
                final = t2,
                process_killed = True\<rparr>)"
  using tb par body setup_hooks_in_order[OF setups, of "[]"]
  by (simp add: runTestCase_def getTestCaseName_def run_B_def T_setup_def
        allLinkListElement_chain[OF chain] isParallel_chain[OF chain])

lemma runTestCase_setup_panicked:
  assumes chain: "root_first_chain h chain (ctx spec)"
    and hooks: "CollectHooks h chain = pre @ hook # post"
    and setups: "setups_in_order pre (newT w) = Some (tds, t1)"
    and hook: "hook t1 = (Inl p, t2)"
    and tb: "testingTB spec \<noteq> testing_other"
  shows "runTestCase h spec test w =
     Some (Inr \<lparr>testCaseName = strings_Join (map (\<lambda>c. description (h ! c)) (tl chain)) ''_'',
                tb_calls = [],
                panicked = Some p,
                teardown_panics = fst (teardowns_in_order (rev tds) t2),
                final = snd (teardowns_in_order (rev tds) t2),
                process_killed = False\<rparr>)"
proof (cases "testingTB spec")
  case testing_T
  then show ?thesis
    using setup_hooks_panic[where hook = hook and post = post and stack = "[]", OF setups hook] hooks
    by (simp add: runTestCase_def getTestCaseName_def run_T_def T_setup_def
          allLinkListElement_chain[OF chain] T_teardown_in_order split: prod.splits)
next
  case (testing_B N)
  then show ?thesis
    using setup_hooks_panic[where hook = hook and post = post and stack = "[]", OF setups hook] hooks
    by (simp add: runTestCase_def getTestCaseName_def run_B_def T_setup_def
          allLinkListElement_chain[OF chain] T_teardown_in_order split: prod.splits)
next
  case testing_other
  with tb show ?thesis by simp
qed

lemma setups_in_order_None:
  "setups_in_order hs t = None \<Longrightarrow>
   \<exists>pre hook post tds t1 p t2.
      hs = pre @ hook # post \<and> setups_in_order pre t = Some (tds, t1) \<and> hook t1 = (Inl p, t2)"
proof (induction hs arbitrary: t)
  case Nil
  then show ?case by simp
next
  case (Cons hook rest)
  obtain res t' where hk: "hook t = (res, t')" by (cases "hook t")
  show ?case
  proof (cases res)
    case (Inl p)
    with hk have "hook # rest = [] @ hook # rest \<and> setups_in_order [] t = Some ([], t) \<and>
        hook t = (Inl p, t')" by simp
    then show ?thesis by blast
  next
    case (Inr td)
    with hk Cons.prems have "setups_in_order rest t' = None"
      by (simp split: option.splits prod.splits)
    from Cons.IH[OF this] obtain pre hook' post tds t1 p t2 where
      IH: "rest = pre @ hook' # post" "setups_in_order pre t' = Some (tds, t1)"
        "hook' t1 = (Inl p, t2)" by blast
    from IH hk Inr have "hook # rest = (hook # pre) @ hook' # post \<and>
        setups_in_order (hook # pre) t = Some (td # tds, t1) \<and> hook' t1 = (Inl p, t2)"
      by simp
    then show ?thesis by blast
  qed
qed

lemma runTestCase_setup_failed:
  assumes chain: "root_first_chain h chain (ctx spec)"
    and setups: "setups_in_order (CollectHooks h chain) (newT w) = None"
    and tb: "testingTB spec \<noteq> testing_other"
  shows "\<exists>r. runTestCase h spec test w = Some (Inr r) \<and> tb_calls r = [] \<and>
           panicked r \<noteq> None \<and> \<not> process_killed r"
proof -
  from setups_in_order_None[OF setups] obtain pre hook post tds t1 p t2 where
    "CollectHooks h chain = pre @ hook # post" "setups_in_order pre (newT w) = Some (tds, t1)"
    "hook t1 = (Inl p, t2)" by blast
  from runTestCase_setup_panicked[OF chain this tb, of test] show ?thesis by simp
qed


subsection \<open>More on chains\<close>

lemma root_first_chain_unique:
  "root_first_chain h c1 a \<Longrightarrow> root_first_chain h c2 a \<Longrightarrow> c1 = c2"
  using chain_unique[of h c1 c2] by (simp add: root_first_chain_def)

lemma linked_append:
  "linked h q (xs @ ys) \<longleftrightarrow>
     linked h q xs \<and> linked h (if xs = [] then q else Some (last xs)) ys"
  by (induction xs arbitrary: q) auto

lemma chain_prefix:
  "root_first_chain h (xs @ a # ys) leaf \<Longrightarrow> root_first_chain h (xs @ [a]) a"
  by (auto simp: root_first_chain_def linked_append)

lemma chain_sibling:
  assumes "root_first_chain h (xs @ [d]) d" "parent (h ! s) = parent (h ! d)"
  shows "root_first_chain h (xs @ [s]) s"
  using assms by (simp add: root_first_chain_def linked_snoc)

lemma chain_ancestor_differs:
  assumes "root_first_chain h (pre @ a # mid @ [d]) d"
  shows "a \<noteq> d"
proof
  assume "a = d"
  with assms have whole: "root_first_chain h (pre @ d # mid @ [d]) d" by simp
  then have "root_first_chain h (pre @ [d]) d" by (rule chain_prefix)
  from root_first_chain_unique[OF this whole] show False by simp
qed

subsection \<open>The calls of the API\<close>

lemma built_Nil: "built []"
  by (simp add: built_def api_steps_def)

lemma built_step: "built h \<Longrightarrow> api_step h h' \<Longrightarrow> built h'"
  unfolding built_def api_steps_def by (rule rtranclp.rtrancl_into_rtrancl)

lemma api_steps_refl: "api_steps h h"
  by (simp add: api_steps_def)

lemma newSubSpec_immutable:
  "ctx spec < length h \<Longrightarrow>
   ctx spec < length (fst (newSubSpec h spec desc)) \<and>
   immutable (fst (newSubSpec h spec desc) ! ctx spec)"
  by (simp add: newSubSpec_def Let_def nth_append)

lemma built_no_child_mutable:
  "built h \<Longrightarrow> a < length h \<Longrightarrow> \<not> has_child h a \<Longrightarrow> \<not> immutable (h ! a)"
  using built_tree_inv[of h] by (simp add: tree_inv_def)

lemma immutable_calls_panic:
  assumes "immutable (h ! ctx spec)"
  shows "Before h spec blk = Inl hookWarning" "After h spec blk = Inl hookWarning"
    "Around h spec hook = Inl hookWarning" "Let' h spec name letBlock = Inl varWarning"
    "LetValue kindOf h spec name v =
       (if kindOf v \<in> acceptedConstKind then Inl varWarning else Inl panicMessageForLetValue)"
    "Parallel h spec = Inl parallelWarn"
  using assms
  by (simp_all add: Before_def After_def Around_def addHook_def Let'_def LetValue_def Parallel_def)

lemma mutable_calls_succeed:
  assumes "\<not> immutable (h ! ctx spec)"
  shows "\<exists>h'. Before h spec blk = Inr h'" "\<exists>h'. After h spec blk = Inr h'"
    "\<exists>h'. Around h spec hook = Inr h'" "\<exists>h'. Let' h spec name letBlock = Inr h'"
    "kindOf v \<in> acceptedConstKind \<Longrightarrow> \<exists>h'. LetValue kindOf h spec name v = Inr h'"
    "kindOf v \<notin> acceptedConstKind \<Longrightarrow> LetValue kindOf h spec name v = Inl panicMessageForLetValue"
    "\<exists>h'. Parallel h spec = Inr h'"
  using assms
  by (simp_all add: Before_def After_def Around_def addHook_def Let'_def LetValue_def Parallel_def)

lemma addHook_appends:
  "addHook h c hook = Inr h' \<Longrightarrow> c < length h \<Longrightarrow>
   hooks (h' ! c) = hooks (h ! c) @ [hook] \<and> (\<forall>a. a \<noteq> c \<longrightarrow> h' ! a = h ! a)"
  by (auto simp: addHook_def split: if_splits)

lemma rejected_kinds:
  "k \<notin> acceptedConstKind \<longleftrightarrow>
   k \<in> {reflect_Invalid, reflect_Uintptr, reflect_Array, reflect_Chan, reflect_Func,
        reflect_Interface, reflect_Map, reflect_Ptr, reflect_Slice, reflect_Struct,
        reflect_UnsafePointer}"
  by (cases k) (simp_all add: acceptedConstKind_def)

lemma LetValue_defines:
  assumes "kindOf v \<in> acceptedConstKind" "\<not> immutable (h ! ctx spec)" "ctx spec < length h"
  shows "\<exists>h' factory. LetValue kindOf h spec name v = Inr h' \<and>
           defs (vars (h' ! ctx spec)) name = Some factory \<and> (\<forall>t. factory t = (Inr v, t))"
  using assms by (simp add: LetValue_def Let'_def context_let_def)

text \<open>Every way of opening a child scope goes through \<^verbatim>\<open>newSubSpec\<close>.\<close>

lemma Context_opens_child:
  "Context h spec desc block =
     block (fst (newSubSpec h spec desc)) (snd (newSubSpec h spec desc))"
  and "Describe h spec desc block =
     block (fst (newSubSpec h spec (''describe '' @ desc)))
           (snd (newSubSpec h spec (''describe '' @ desc)))"
  and "When h spec desc block =
     block (fst (newSubSpec h spec (''when '' @ desc))) (snd (newSubSpec h spec (''when '' @ desc)))"
  and "And h spec desc block =
     block (fst (newSubSpec h spec (''and '' @ desc))) (snd (newSubSpec h spec (''and '' @ desc)))"
  by (simp_all add: Context_def Describe_def When_def And_def split: prod.splits)

lemma Test_opens_child:
  "fst (Test h spec desc test w) = fst (newSubSpec h spec desc)"
  and "fst (Then h spec desc test w) = fst (newSubSpec h spec (''then '' @ desc))"
  by (simp_all add: Test_def Then_def split: prod.splits)

subsection \<open>Resolution\<close>

lemma lookup_definition_nearest:
  assumes "defs (vars (h ! d)) name = Some f"
    and "\<forall>n\<in>set post. defs (vars (h ! n)) name = None"
  shows "lookup_definition h (rev (pre @ d # post)) name = Some f"
  using assms(2)
proof (induction post rule: rev_induct)
  case Nil
  with assms(1) show ?case by simp
next
  case (snoc x xs)
  then show ?case by simp
qed

lemma Resolve_first:
  assumes "lookup_definition h (rev allCTX) name = Some factory" "cache t name = None"
    "factory t = (Inr v, t')"
  shows "Resolve h allCTX name t = (Inr v, t'\<lparr>cache := (cache t')(name \<mapsto> v)\<rparr>)"
  using assms by (simp add: Resolve_def)

lemma Resolve_stored:
  assumes "lookup_definition h (rev allCTX) name = Some factory" "cache t name = Some v"
  shows "Resolve h allCTX name t = (Inr v, t)"
  using assms by (simp add: Resolve_def)


lemma iterations_add:
  "iterations (i + k) test t =
     (case iterations i test t of
        (Some p, t') \<Rightarrow> (Some p, t')
      | (None, t') \<Rightarrow> iterations k test t')"
  by (induction i arbitrary: t) (auto split: prod.splits option.splits)

lemma iterations_keep_cache:
  assumes keeps: "\<And>t p t'. test t = (p, t') \<Longrightarrow> cache t name = Some v \<Longrightarrow> cache t' name = Some v"
  shows "iterations k test t = (p, t') \<Longrightarrow> cache t name = Some v \<Longrightarrow> cache t' name = Some v"
proof (induction k arbitrary: t)
  case 0
  then show ?case by simp
next
  case (Suc k)
  obtain q s where step: "test t = (q, s)" by (cases "test t")
  from keeps[OF step Suc.prems(2)] have s: "cache s name = Some v" .
  show ?case
  proof (cases q)
    case None
    with step Suc.prems(1) have "iterations k test s = (p, t')" by simp
    from Suc.IH[OF this s] show ?thesis .
  next
    case (Some x)
    with step Suc.prems(1) have "t' = s" by simp
    with s show ?thesis by simp
  qed
qed

lemma iterations_later_sees_cache:
  assumes keeps: "\<And>t p t'. test t = (p, t') \<Longrightarrow> cache t name = Some v \<Longrightarrow> cache t' name = Some v"
    and "i \<le> j" and "iterations i test t1 = (None, ti)" and "iterations j test t1 = (None, tj)"
    and "cache ti name = Some v"
  shows "cache tj name = Some v"
proof -
  from assms(2) obtain k where j: "j = i + k" by (auto simp: le_iff_add)
  from assms(3,4) have "iterations k test ti = (None, tj)"
    unfolding j iterations_add by simp
  from iterations_keep_cache[OF keeps this assms(5)] show ?thesis by simp
qed

lemma iterations_Suc_returned:
  "test t1 = (None, t2) \<Longrightarrow> iterations (Suc N) test t1 = iterations N test t2"
  by simp

subsection \<open>The example specifications\<close>

lemma ex_root_heap_eq: "ex_root_heap = [newContext]"
  by (simp add: ex_root_heap_def NewSpec_def)

lemma ex_root_eq: "ex_root = \<lparr>testingTB = testing_T, ctx = 0\<rparr>"
  by (simp add: ex_root_def NewSpec_def)

lemma ex_opened_heap_eq:
  "ex_opened_heap =
     [newContext\<lparr>immutable := True\<rparr>, newContext\<lparr>parent := Some 0, description := ''child''\<rparr>]"
  by (simp add: ex_opened_heap_def ex_root_heap_eq ex_root_eq newSubSpec_def Let_def)

lemma ex_child_eq: "ex_child = \<lparr>testingTB = testing_T, ctx = 1\<rparr>"
  by (simp add: ex_child_def ex_root_heap_eq ex_root_eq newSubSpec_def Let_def)

lemma built_ex_root_heap: "built ex_root_heap"
  unfolding ex_root_heap_def by (rule built_step[OF built_Nil]) (rule step_NewSpec)

lemma built_ex_opened_heap: "built ex_opened_heap"
  unfolding ex_opened_heap_def
  by (rule built_step[OF built_ex_root_heap], rule step_newSubSpec)
     (simp add: ex_root_heap_eq ex_root_eq)

lemma ex_root_no_child: "\<not> has_child ex_root_heap (ctx ex_root)"
  by (simp add: has_child_def ex_root_heap_eq ex_root_eq newContext_def)

lemma wf_heap_three:
  "parent n0 = None \<Longrightarrow> parent n1 = Some 0 \<Longrightarrow> parent n2 = Some 1 \<Longrightarrow> wf_heap [n0, n1, n2]"
  by (auto simp: wf_heap_def less_Suc_eq nth_Cons')

lemma chain_three:
  "parent n0 = None \<Longrightarrow> parent n1 = Some 0 \<Longrightarrow> parent n2 = Some 1 \<Longrightarrow>
   root_first_chain [n0, n1, n2] [0, 1, 2] 2"
  by (simp add: root_first_chain_def)

lemma ex_hooks_heap_eq:
  "ex_hooks_heap =
     [newContext\<lparr>hooks := [Before_hook (say ''B1''), After_hook (say ''A1'')],
                 immutable := True\<rparr>,
      newContext\<lparr>parent := Some 0,
                 hooks := [Before_hook (say ''B2''), After_hook (say ''A2'')],
                 immutable := True, description := ''child''\<rparr>,
      newContext\<lparr>parent := Some 1, description := ''leaf''\<rparr>]"
  by (simp add: ex_hooks_heap_def ex_root_heap_eq ex_root_eq ex_child_eq Before_def After_def
        addHook_def newSubSpec_def Let_def newContext_def)

lemma ex_hooks_heap_wf: "wf_heap ex_hooks_heap"
  unfolding ex_hooks_heap_eq by (rule wf_heap_three) (simp_all add: newContext_def)

lemma ex_hooks_heap_chain: "root_first_chain ex_hooks_heap [0, 1, 2] 2"
  unfolding ex_hooks_heap_eq by (rule chain_three) (simp_all add: newContext_def)

lemma ex_hooks_setups:
  "setups_in_order (concat (map (\<lambda>c. hooks (ex_hooks_heap ! c)) [0, 1, 2])) (newT []) =
     Some ([\<lambda>t. (None, t), \<lambda>t. (None, t\<lparr>world := world t @ [''A1'']\<rparr>),
            \<lambda>t. (None, t), \<lambda>t. (None, t\<lparr>world := world t @ [''A2'']\<rparr>)],
           \<lparr>cache = Map.empty, world = [''B1'', ''B2'']\<rparr>)"
  by (simp add: ex_hooks_heap_eq newContext_def Before_hook_def After_hook_def say_def newT_def)

lemma ex_panic_heap_eq:
  "ex_panic_heap =
     [newContext\<lparr>hooks := [Before_hook (say ''B1''), After_hook (say ''A1'')],
                 immutable := True\<rparr>,
      newContext\<lparr>parent := Some 0,
                 hooks := [ex_panicking_hook, After_hook (say ''A2'')],
                 immutable := True, description := ''child''\<rparr>,
      newContext\<lparr>parent := Some 1, description := ''leaf''\<rparr>]"
  by (simp add: ex_panic_heap_def ex_root_heap_eq ex_root_eq ex_child_eq Before_def After_def
        Around_def addHook_def newSubSpec_def Let_def newContext_def)

lemma ex_panic_heap_wf: "wf_heap ex_panic_heap"
  unfolding ex_panic_heap_eq by (rule wf_heap_three) (simp_all add: newContext_def)

lemma ex_panic_heap_chain: "root_first_chain ex_panic_heap [0, 1, 2] 2"
  unfolding ex_panic_heap_eq by (rule chain_three) (simp_all add: newContext_def)

lemma ex_parallel_heap_eq:
  "ex_parallel_heap =
     [newContext\<lparr>parallel := True, immutable := True\<rparr>,
      newContext\<lparr>parent := Some 0, immutable := True, description := ''child''\<rparr>,
      newContext\<lparr>parent := Some 1, description := ''leaf''\<rparr>]"
  by (simp add: ex_parallel_heap_def ex_root_heap_eq ex_root_eq ex_child_eq Parallel_def
        newSubSpec_def Let_def newContext_def)

lemma ex_parallel_heap_wf: "wf_heap ex_parallel_heap"
  unfolding ex_parallel_heap_eq by (rule wf_heap_three) (simp_all add: newContext_def)

lemma ex_parallel_heap_chain: "root_first_chain ex_parallel_heap [0, 1, 2] 2"
  unfolding ex_parallel_heap_eq by (rule chain_three) (simp_all add: newContext_def)

lemma ex_leaf_simps:
  "ctx ex_leaf = 2" "testingTB ex_leaf = testing_T" "testingTB ex_leaf \<noteq> testing_other"
  by (simp_all add: ex_leaf_def)

lemma ex_bench_heap_eq:
  "ex_bench_heap =
     [newContext\<lparr>vars := \<lparr>defs = [''x'' \<mapsto> ex_counting_factory]\<rparr>, immutable := True\<rparr>,
      newContext\<lparr>parent := Some 0, description := ''bench''\<rparr>]"
  by (simp add: ex_bench_heap_def ex_root_heap_eq ex_root_eq Let'_def context_let_def
        newSubSpec_def Let_def newContext_def newVariables_def)

lemma ex_bench_heap_wf: "wf_heap ex_bench_heap"
  by (auto simp: wf_heap_def ex_bench_heap_eq newContext_def less_Suc_eq nth_Cons')

lemma ex_bench_heap_chain: "root_first_chain ex_bench_heap [0, 1] 1"
  by (simp add: root_first_chain_def ex_bench_heap_eq newContext_def)

lemma ex_bench_lookup:
  "lookup_definition ex_bench_heap (rev [0, 1]) ''x'' = Some ex_counting_factory"
  by (simp add: ex_bench_heap_eq newContext_def newVariables_def)

lemma ex_reading_body_first:
  "ex_reading_body (newT []) =
     (None, \<lparr>cache = [''x'' \<mapsto> go_int 0], world = [''made x'', ''read 0'']\<rparr>)"
  unfolding ex_reading_body_def
  by (simp add: Resolve_def ex_bench_lookup[simplified] ex_counting_factory_def newT_def)

lemma ex_reading_body_again:
  "ex_reading_body \<lparr>cache = [''x'' \<mapsto> go_int 0], world = log\<rparr> =
     (None, \<lparr>cache = [''x'' \<mapsto> go_int 0], world = log @ [''read 0'']\<rparr>)"
  unfolding ex_reading_body_def
  by (simp add: Resolve_def ex_bench_lookup[simplified])

lemma ex_shadow_heap_eq:
  "ex_shadow_heap =
     [newContext\<lparr>vars := \<lparr>defs = [''x'' \<mapsto> (\<lambda>t. (Inr (go_int 1), t))]\<rparr>, immutable := True\<rparr>,
      newContext\<lparr>vars := \<lparr>defs = [''x'' \<mapsto> (\<lambda>t. (Inr (go_int 2), t))]\<rparr>,
                 parent := Some 0, description := ''A''\<rparr>,
      newContext\<lparr>parent := Some 0, description := ''B''\<rparr>]"
  by (simp add: ex_shadow_heap_def ex_root_heap_eq ex_root_eq ex_child_eq LetValue_def
        acceptedConstKind_def Let'_def context_let_def newSubSpec_def Let_def newContext_def
        newVariables_def)

lemma ex_parallel_hooks_heap_eq:
  "ex_parallel_hooks_heap =
     [newContext\<lparr>hooks := [Before_hook (say ''B1''), After_hook (say ''A1'')],
                 parallel := True, immutable := True\<rparr>,
      newContext\<lparr>parent := Some 0,
                 hooks := [Before_hook (say ''B2''), After_hook (say ''A2'')],
                 immutable := True, description := ''child''\<rparr>,
      newContext\<lparr>parent := Some 1, description := ''leaf''\<rparr>]"
  by (simp add: ex_parallel_hooks_heap_def ex_root_heap_eq ex_root_eq ex_child_eq Parallel_def
        Before_def After_def addHook_def newSubSpec_def Let_def newContext_def)

lemma ex_parallel_hooks_heap_wf: "wf_heap ex_parallel_hooks_heap"
  unfolding ex_parallel_hooks_heap_eq by (rule wf_heap_three) (simp_all add: newContext_def)

lemma ex_parallel_hooks_heap_chain: "root_first_chain ex_parallel_hooks_heap [0, 1, 2] 2"
  unfolding ex_parallel_hooks_heap_eq by (rule chain_three) (simp_all add: newContext_def)

lemma ex_parallel_hooks_setups:
  "setups_in_order (CollectHooks ex_parallel_hooks_heap [0, 1, 2]) (newT []) =
     Some ([\<lambda>t. (None, t), \<lambda>t. (None, t\<lparr>world := world t @ [''A1'']\<rparr>),
            \<lambda>t. (None, t), \<lambda>t. (None, t\<lparr>world := world t @ [''A2'']\<rparr>)],
           \<lparr>cache = Map.empty, world = [''B1'', ''B2'']\<rparr>)"
  by (simp add: CollectHooks_def ex_parallel_hooks_heap_eq newContext_def Before_hook_def
        After_hook_def say_def newT_def)

lemma ex_parallel_panic_heap_eq:
  "ex_parallel_panic_heap =
     [newContext\<lparr>parallel := True, immutable := True\<rparr>,
      newContext\<lparr>parent := Some 0, hooks := [ex_panicking_hook],
                 immutable := True, description := ''child''\<rparr>,
      newContext\<lparr>parent := Some 1, description := ''leaf''\<rparr>]"
  by (simp add: ex_parallel_panic_heap_def ex_root_heap_eq ex_root_eq ex_child_eq Parallel_def
        Around_def addHook_def newSubSpec_def Let_def newContext_def)

lemma ex_parallel_panic_heap_wf: "wf_heap ex_parallel_panic_heap"
  unfolding ex_parallel_panic_heap_eq by (rule wf_heap_three) (simp_all add: newContext_def)

lemma ex_parallel_panic_heap_chain: "root_first_chain ex_parallel_panic_heap [0, 1, 2] 2"
  unfolding ex_parallel_panic_heap_eq by (rule chain_three) (simp_all add: newContext_def)




section \<open>The claims\<close>

subsection \<open>C1: setup in chain order, teardown in reverse\<close>

text \<open>
  Where the claim holds. On a \<^verbatim>\<open>*testing.T\<close>, and on a \<^verbatim>\<open>*testing.B\<close> unless the body panics
  in a goroutine of \<^verbatim>\<open>b.RunParallel\<close>: when the hooks of the nodes of the root-to-leaf
  chain, taken node by node from the root and within a node in the order of the node's
  list, all return when run one after the other in that order, then the run of the case
  is that sequence of setups, followed by the test body, followed by the returned
  teardown actions in the exact reverse of the order their hooks ran. The list of a node
  is in the order the hooks were added: \<^verbatim>\<open>addHook\<close> appends, and touches no other node.
\<close>

lemma setup_in_chain_order_teardown_reversed:
  assumes "wf_heap h" and "ctx spec < length h" and "testingTB spec \<noteq> testing_other"
  shows "\<exists>chain. root_first_chain h chain (ctx spec) \<and>
     (\<forall>tds t1 pb t2.
        setups_in_order (concat (map (\<lambda>c. hooks (h ! c)) chain)) (newT w) = Some (tds, t1) \<longrightarrow>
        run_body (testingTB spec) test t1 = (pb, t2) \<longrightarrow>
        (pb = None \<or>
           \<not> body_in_goroutines (testingTB spec) (\<exists>c\<in>set chain. parallel (h ! c))) \<longrightarrow>
        (\<exists>r. runTestCase h spec test w = Some (Inr r) \<and> panicked r = pb \<and>
             \<not> process_killed r \<and>
             (teardown_panics r, final r) = teardowns_in_order (rev tds) t2)) \<and>
     (\<forall>hook h'. addHook h (ctx spec) hook = Inr h' \<longrightarrow>
        hooks (h' ! ctx spec) = hooks (h ! ctx spec) @ [hook] \<and>
        (\<forall>a. a \<noteq> ctx spec \<longrightarrow> h' ! a = h ! a))"
proof -
  from chain_exists[OF assms(1,2)] obtain chain where
    chain: "root_first_chain h chain (ctx spec)" by blast
  have "\<exists>r. runTestCase h spec test w = Some (Inr r) \<and> panicked r = pb \<and>
          \<not> process_killed r \<and>
          (teardown_panics r, final r) = teardowns_in_order (rev tds) t2"
    if "setups_in_order (concat (map (\<lambda>c. hooks (h ! c)) chain)) (newT w) = Some (tds, t1)"
      and body: "run_body (testingTB spec) test t1 = (pb, t2)"
      and alive: "pb = None \<or>
           \<not> body_in_goroutines (testingTB spec) (\<exists>c\<in>set chain. parallel (h ! c))"
    for tds t1 pb t2
  proof -
    from that(1) have setups: "setups_in_order (CollectHooks h chain) (newT w) = Some (tds, t1)"
      by (simp add: CollectHooks_def)
    show ?thesis
      unfolding runTestCase_completed[OF chain setups body assms(3) alive] by simp
  qed
  moreover have "hooks (h' ! ctx spec) = hooks (h ! ctx spec) @ [hook] \<and>
      (\<forall>a. a \<noteq> ctx spec \<longrightarrow> h' ! a = h ! a)"
    if "addHook h (ctx spec) hook = Inr h'" for hook h'
    using that assms(2) by (rule addHook_appends)
  ultimately show ?thesis using chain by blast
qed

text \<open>
  C1 fails on the code for a benchmark whose chain has the parallel flag and whose test
  body panics. The spec \<^verbatim>\<open>s.Parallel(); s.Before(B1); s.After(A1); s.Context("child",
  func(s) { s.Before(B2); s.After(A2); s.Test("leaf", body) })\<close> with a body that logs and
  panics: on a \<^verbatim>\<open>*testing.B\<close> the setups run in chain order, the body runs in a goroutine
  of \<^verbatim>\<open>b.RunParallel\<close>, its panic kills the process, and no teardown action is executed;
  on a \<^verbatim>\<open>*testing.T\<close> the same spec executes the teardown actions in reverse order.
\<close>

theorem parallel_benchmark_panic_runs_no_teardown:
  "runTestCase ex_parallel_hooks_heap ex_parallel_bench_leaf ex_panicking_body [] =
     Some (Inr \<lparr>testCaseName = ''child_leaf'',
                tb_calls = [tb_ResetTimer, tb_RunParallel],
                panicked = Some (userPanic ''boom''),
                teardown_panics = [],
                final = \<lparr>cache = Map.empty, world = [''B1'', ''B2'', ''body'']\<rparr>,
                process_killed = True\<rparr>) \<and>
   runTestCase ex_parallel_hooks_heap ex_leaf ex_panicking_body [] =
     Some (Inr \<lparr>testCaseName = ''child_leaf'',
                tb_calls = [tb_Parallel],
                panicked = Some (userPanic ''boom''),
                teardown_panics = [],
                final = \<lparr>cache = Map.empty,
                         world = [''B1'', ''B2'', ''body'', ''A2'', ''A1'']\<rparr>,
                process_killed = False\<rparr>)"
proof -
  have chainB: "root_first_chain ex_parallel_hooks_heap [0, 1, 2] (ctx ex_parallel_bench_leaf)"
    and chainT: "root_first_chain ex_parallel_hooks_heap [0, 1, 2] (ctx ex_leaf)"
    using ex_parallel_hooks_heap_chain by (simp_all add: ex_parallel_bench_leaf_def ex_leaf_def)
  have par: "\<exists>c\<in>set [0, 1, 2]. parallel (ex_parallel_hooks_heap ! c)"
    by (simp add: ex_parallel_hooks_heap_eq newContext_def)
  have tbB: "testingTB ex_parallel_bench_leaf = testing_B (Suc 0)"
    by (simp add: ex_parallel_bench_leaf_def)
  have bodyB: "iterations (Suc 0) ex_panicking_body
                 \<lparr>cache = Map.empty, world = [''B1'', ''B2'']\<rparr> =
               (Some (userPanic ''boom''),
                \<lparr>cache = Map.empty, world = [''B1'', ''B2'', ''body'']\<rparr>)"
    by (simp add: ex_panicking_body_def)
  have bodyT: "run_body (testingTB ex_leaf) ex_panicking_body
                 \<lparr>cache = Map.empty, world = [''B1'', ''B2'']\<rparr> =
               (Some (userPanic ''boom''),
                \<lparr>cache = Map.empty, world = [''B1'', ''B2'', ''body'']\<rparr>)"
    by (simp add: run_body_def ex_leaf_def ex_panicking_body_def)
  have alive: "Some (userPanic ''boom'') = None \<or>
      \<not> body_in_goroutines (testingTB ex_leaf)
          (\<exists>c\<in>set [0, 1, 2]. parallel (ex_parallel_hooks_heap ! c))"
    by (simp add: body_in_goroutines_def ex_leaf_def)
  have names: "strings_Join (map (\<lambda>c. description (ex_parallel_hooks_heap ! c)) (tl [0, 1, 2]))
                 ''_'' = ''child_leaf''"
    by (simp add: ex_parallel_hooks_heap_eq newContext_def)
  have onB: "runTestCase ex_parallel_hooks_heap ex_parallel_bench_leaf ex_panicking_body [] =
     Some (Inr \<lparr>testCaseName = ''child_leaf'',
                tb_calls = [tb_ResetTimer, tb_RunParallel],
                panicked = Some (userPanic ''boom''),
                teardown_panics = [],
                final = \<lparr>cache = Map.empty, world = [''B1'', ''B2'', ''body'']\<rparr>,
                process_killed = True\<rparr>)"
    unfolding runTestCase_killed[OF chainB ex_parallel_hooks_setups tbB par bodyB] names
    by simp
  have onT: "runTestCase ex_parallel_hooks_heap ex_leaf ex_panicking_body [] =
     Some (Inr \<lparr>testCaseName = ''child_leaf'',
                tb_calls = [tb_Parallel],
                panicked = Some (userPanic ''boom''),
                teardown_panics = [],
                final = \<lparr>cache = Map.empty,
                         world = [''B1'', ''B2'', ''body'', ''A2'', ''A1'']\<rparr>,
                process_killed = False\<rparr>)"
    unfolding runTestCase_completed[OF chainT ex_parallel_hooks_setups bodyT
        ex_leaf_simps(3) alive] names
    using par by (simp add: ex_leaf_def)
  from onB onT show ?thesis by simp
qed

subsection \<open>C2: a scope is immutable once a child was opened from it\<close>

text \<open>
  C2, as the code has it. Once a child scope has been opened from a scope (by
  \<^verbatim>\<open>newSubSpec\<close>, which \<^verbatim>\<open>Context\<close>, \<^verbatim>\<open>Describe\<close>, \<^verbatim>\<open>When\<close>, \<^verbatim>\<open>And\<close>, \<^verbatim>\<open>Test\<close> and \<^verbatim>\<open>Then\<close> call),
  after any further calls of the API, \<^verbatim>\<open>Before\<close>, \<^verbatim>\<open>After\<close> and \<^verbatim>\<open>Around\<close> on that scope panic
  with \<^verbatim>\<open>hookWarning\<close>, \<^verbatim>\<open>Let\<close> panics with \<^verbatim>\<open>varWarning\<close>, \<^verbatim>\<open>Parallel\<close> panics with
  \<^verbatim>\<open>parallelWarn\<close>, and \<^verbatim>\<open>LetValue\<close> panics with \<^verbatim>\<open>varWarning\<close> when the value is of an
  accepted kind. On a scope without child the same calls succeed. \<^verbatim>\<open>LetValue\<close> with
  a value of another kind panics with its own message, before and after a child exists:
  it checks the kind first.
\<close>

theorem mutation_panics_once_child_opened:
  assumes "built h" and "ctx spec < length h"
  shows
    "(\<forall>desc h2. api_steps (fst (newSubSpec h spec desc)) h2 \<longrightarrow>
        Before h2 spec blk = Inl hookWarning \<and>
        After h2 spec blk = Inl hookWarning \<and>
        Around h2 spec hook = Inl hookWarning \<and>
        Let' h2 spec name letBlock = Inl varWarning \<and>
        LetValue kindOf h2 spec name v =
          (if kindOf v \<in> acceptedConstKind then Inl varWarning
           else Inl panicMessageForLetValue) \<and>
        Parallel h2 spec = Inl parallelWarn) \<and>
     (\<not> has_child h (ctx spec) \<longrightarrow>
        (\<exists>h'. Before h spec blk = Inr h') \<and>
        (\<exists>h'. After h spec blk = Inr h') \<and>
        (\<exists>h'. Around h spec hook = Inr h') \<and>
        (\<exists>h'. Let' h spec name letBlock = Inr h') \<and>
        (kindOf v \<in> acceptedConstKind \<longrightarrow> (\<exists>h'. LetValue kindOf h spec name v = Inr h')) \<and>
        (kindOf v \<notin> acceptedConstKind \<longrightarrow>
           LetValue kindOf h spec name v = Inl panicMessageForLetValue) \<and>
        (\<exists>h'. Parallel h spec = Inr h'))"
proof (intro conjI allI impI)
  fix desc h2
  assume later: "api_steps (fst (newSubSpec h spec desc)) h2"
  from newSubSpec_immutable[OF assms(2), of desc] api_steps_immutable[OF later]
  have imm: "immutable (h2 ! ctx spec)" by simp
  show "Before h2 spec blk = Inl hookWarning" "After h2 spec blk = Inl hookWarning"
    "Around h2 spec hook = Inl hookWarning" "Let' h2 spec name letBlock = Inl varWarning"
    "LetValue kindOf h2 spec name v =
       (if kindOf v \<in> acceptedConstKind then Inl varWarning else Inl panicMessageForLetValue)"
    "Parallel h2 spec = Inl parallelWarn"
    by (rule immutable_calls_panic[OF imm])+
next
  assume "\<not> has_child h (ctx spec)"
  with assms have mut: "\<not> immutable (h ! ctx spec)" by (rule built_no_child_mutable)
  show "\<exists>h'. Before h spec blk = Inr h'" "\<exists>h'. After h spec blk = Inr h'"
    "\<exists>h'. Around h spec hook = Inr h'" "\<exists>h'. Let' h spec name letBlock = Inr h'"
    "\<exists>h'. Parallel h spec = Inr h'"
    by (rule mutable_calls_succeed[OF mut])+
  show "\<exists>h'. LetValue kindOf h spec name v = Inr h'" if "kindOf v \<in> acceptedConstKind"
    using that by (rule mutable_calls_succeed(5)[OF mut])
  show "LetValue kindOf h spec name v = Inl panicMessageForLetValue"
    if "kindOf v \<notin> acceptedConstKind"
    using that by (rule mutable_calls_succeed(6)[OF mut])
qed

theorem mutation_panics_once_child_opened_witness:
  "Before ex_opened_heap ex_root (say ''late'') = Inl hookWarning \<and>
   After ex_opened_heap ex_root (say ''late'') = Inl hookWarning \<and>
   Around ex_opened_heap ex_root (\<lambda>t. (Inr (say ''down''), t)) = Inl hookWarning \<and>
   Let' ex_opened_heap ex_root ''x'' (\<lambda>t. (Inr (go_int 1), t)) = Inl varWarning \<and>
   LetValue kind_of ex_opened_heap ex_root ''x'' (go_int 1) = Inl varWarning \<and>
   Parallel ex_opened_heap ex_root = Inl parallelWarn \<and>
   (\<exists>h'. Before ex_root_heap ex_root (say ''late'') = Inr h') \<and>
   (\<exists>h'. After ex_root_heap ex_root (say ''late'') = Inr h') \<and>
   (\<exists>h'. Around ex_root_heap ex_root (\<lambda>t. (Inr (say ''down''), t)) = Inr h') \<and>
   (\<exists>h'. Let' ex_root_heap ex_root ''x'' (\<lambda>t. (Inr (go_int 1), t)) = Inr h') \<and>
   (\<exists>h'. LetValue kind_of ex_root_heap ex_root ''x'' (go_int 1) = Inr h') \<and>
   (\<exists>h'. Parallel ex_root_heap ex_root = Inr h')"
proof -
  have len: "ctx ex_root < length ex_root_heap"
    by (simp add: ex_root_heap_eq ex_root_eq)
  have later: "api_steps (fst (newSubSpec ex_root_heap ex_root ''child'')) ex_opened_heap"
    unfolding ex_opened_heap_def by (rule api_steps_refl)
  have kind: "kind_of (go_int 1) \<in> acceptedConstKind"
    by (simp add: acceptedConstKind_def)
  note inst = mutation_panics_once_child_opened[OF built_ex_root_heap len,
      of "say ''late''" "\<lambda>t. (Inr (say ''down''), t)" "''x''" "\<lambda>t. (Inr (go_int 1), t)"
        kind_of "go_int 1"]
  from inst later ex_root_no_child kind show ?thesis by auto
qed

text \<open>The claim as stated fails for \<^verbatim>\<open>LetValue\<close> with a slice: on the scope that has a
  child the panic is the one of \<^verbatim>\<open>LetValue\<close>, not the immutability panic of \<^verbatim>\<open>Let\<close>, and on
  the scope without child the call does not succeed.\<close>

theorem LetValue_slice_counterexample:
  "ex_opened_heap = fst (newSubSpec ex_root_heap ex_root ''child'') \<and>
   LetValue kind_of ex_opened_heap ex_root ''m'' (go_slice [go_int 1, go_int 2])
     = Inl panicMessageForLetValue \<and>
   LetValue kind_of ex_opened_heap ex_root ''m'' (go_slice [go_int 1, go_int 2])
     \<noteq> Inl varWarning \<and>
   \<not> has_child ex_root_heap (ctx ex_root) \<and>
   LetValue kind_of ex_root_heap ex_root ''m'' (go_slice [go_int 1, go_int 2])
     = Inl panicMessageForLetValue"
  by (simp add: ex_opened_heap_def LetValue_def acceptedConstKind_def ex_root_no_child)

subsection \<open>C3: a variable is computed once per execution\<close>




subsection \<open>C4: a descendant's definition shadows the ancestor's\<close>

text \<open>
  C4. Let a variable name be defined in a scope A and in a descendant D of A, and in
  no scope between them. Then resolving the name from D gives D's definition and the
  value its factory produces, and so does resolving it from any descendant of D below
  which the name is not defined again; resolving it from a sibling of D (a scope with
  the parent of D) that does not define the name gives A's definition and the value
  that one produces. Defining the name in D leaves the table of A as it was: the
  definition of A is shadowed, not deleted.
\<close>

theorem descendant_definition_shadows_ancestor:
  assumes "root_first_chain h (pre @ A # mid @ [D]) D"
    and "defs (vars (h ! A)) name = Some fA"
    and "defs (vars (h ! D)) name = Some fD"
    and "\<forall>n\<in>set mid. defs (vars (h ! n)) name = None"
  shows
    "lookup_definition h (rev (pre @ A # mid @ [D])) name = Some fD \<and>
     (\<forall>t v t'. cache t name = None \<longrightarrow> fD t = (Inr v, t') \<longrightarrow>
        Resolve h (pre @ A # mid @ [D]) name t = (Inr v, t'\<lparr>cache := (cache t')(name \<mapsto> v)\<rparr>)) \<and>
     (\<forall>below L t v t'.
        root_first_chain h (pre @ A # mid @ D # below) L \<longrightarrow>
        (\<forall>n\<in>set below. defs (vars (h ! n)) name = None) \<longrightarrow>
        cache t name = None \<longrightarrow> fD t = (Inr v, t') \<longrightarrow>
        Resolve h (pre @ A # mid @ D # below) name t
          = (Inr v, t'\<lparr>cache := (cache t')(name \<mapsto> v)\<rparr>)) \<and>
     (\<forall>S t v t'.
        parent (h ! S) = parent (h ! D) \<longrightarrow> defs (vars (h ! S)) name = None \<longrightarrow>
        cache t name = None \<longrightarrow> fA t = (Inr v, t') \<longrightarrow>
        root_first_chain h (pre @ A # mid @ [S]) S \<and>
        Resolve h (pre @ A # mid @ [S]) name t
          = (Inr v, t'\<lparr>cache := (cache t')(name \<mapsto> v)\<rparr>)) \<and>
     (\<forall>tb f h'. Let' h \<lparr>testingTB = tb, ctx = D\<rparr> name f = Inr h' \<longrightarrow>
        defs (vars (h' ! A)) name = Some fA)"
proof (intro conjI allI impI)
  have lkD: "lookup_definition h (rev ((pre @ A # mid) @ D # below)) name = Some fD"
    if "\<forall>n\<in>set below. defs (vars (h ! n)) name = None" for below
    using assms(3) that by (rule lookup_definition_nearest)
  from lkD[of "[]"] show own: "lookup_definition h (rev (pre @ A # mid @ [D])) name = Some fD"
    by simp
  show "Resolve h (pre @ A # mid @ [D]) name t = (Inr v, t'\<lparr>cache := (cache t')(name \<mapsto> v)\<rparr>)"
    if "cache t name = None" "fD t = (Inr v, t')" for t v t'
    using own that by (rule Resolve_first)
  show "Resolve h (pre @ A # mid @ D # below) name t
          = (Inr v, t'\<lparr>cache := (cache t')(name \<mapsto> v)\<rparr>)"
    if "\<forall>n\<in>set below. defs (vars (h ! n)) name = None" "cache t name = None"
      "fD t = (Inr v, t')" for below t v t'
  proof -
    from lkD[OF that(1)]
    have "lookup_definition h (rev (pre @ A # mid @ D # below)) name = Some fD" by simp
    then show ?thesis using that(2,3) by (rule Resolve_first)
  qed
  show "root_first_chain h (pre @ A # mid @ [S]) S"
    if "parent (h ! S) = parent (h ! D)" for S
    using chain_sibling[of h "pre @ A # mid" D S] assms(1) that by simp
  show "Resolve h (pre @ A # mid @ [S]) name t
          = (Inr v, t'\<lparr>cache := (cache t')(name \<mapsto> v)\<rparr>)"
    if "defs (vars (h ! S)) name = None" "cache t name = None" "fA t = (Inr v, t')"
    for S t v t'
  proof -
    from assms(4) that(1) have "\<forall>n\<in>set (mid @ [S]). defs (vars (h ! n)) name = None"
      by simp
    with assms(2) have "lookup_definition h (rev (pre @ A # (mid @ [S]))) name = Some fA"
      by (rule lookup_definition_nearest)
    then have "lookup_definition h (rev (pre @ A # mid @ [S])) name = Some fA" by simp
    then show ?thesis using that(2,3) by (rule Resolve_first)
  qed
  show "defs (vars (h' ! A)) name = Some fA"
    if "Let' h \<lparr>testingTB = tb, ctx = D\<rparr> name f = Inr h'" for tb f h'
  proof -
    from assms(1) have "A \<noteq> D" by (rule chain_ancestor_differs)
    moreover from that have "h' = context_let h D name f"
      by (simp add: Let'_def split: if_splits)
    ultimately show ?thesis using assms(2) by (simp add: context_let_def)
  qed
qed

theorem descendant_definition_shadows_ancestor_witness:
  "Resolve ex_shadow_heap [0, 1] ''x'' (newT []) =
     (Inr (go_int 2), \<lparr>cache = [''x'' \<mapsto> go_int 2], world = []\<rparr>) \<and>
   root_first_chain ex_shadow_heap [0, 2] 2 \<and>
   Resolve ex_shadow_heap [0, 2] ''x'' (newT []) =
     (Inr (go_int 1), \<lparr>cache = [''x'' \<mapsto> go_int 1], world = []\<rparr>) \<and>
   (\<exists>h'. Let' ex_shadow_heap \<lparr>testingTB = testing_T, ctx = 1\<rparr> ''x'' (\<lambda>t. (Inr (go_int 3), t))
           = Inr h' \<and>
         defs (vars (h' ! 0)) ''x'' = Some (\<lambda>t. (Inr (go_int 1), t)))"
proof -
  have chain: "root_first_chain ex_shadow_heap ([] @ 0 # [] @ [1]) 1"
    by (simp add: root_first_chain_def ex_shadow_heap_eq newContext_def)
  have dA: "defs (vars (ex_shadow_heap ! 0)) ''x'' = Some (\<lambda>t. (Inr (go_int 1), t))"
    and dD: "defs (vars (ex_shadow_heap ! 1)) ''x'' = Some (\<lambda>t. (Inr (go_int 2), t))"
    and dS: "defs (vars (ex_shadow_heap ! 2)) ''x'' = None"
    and sib: "parent (ex_shadow_heap ! 2) = parent (ex_shadow_heap ! 1)"
    by (simp_all add: ex_shadow_heap_eq newContext_def newVariables_def)
  have mid: "\<forall>n\<in>set []. defs (vars (ex_shadow_heap ! n)) ''x'' = None" by simp
  have fresh: "cache (newT [] :: (go_value, string list) T) ''x'' = None"
    by (simp add: newT_def)
  have ok: "\<exists>h'. Let' ex_shadow_heap \<lparr>testingTB = testing_T, ctx = 1\<rparr> ''x''
                   (\<lambda>t. (Inr (go_int 3), t)) = Inr h'"
    by (simp add: Let'_def ex_shadow_heap_eq newContext_def)
  note inst = descendant_definition_shadows_ancestor[OF chain dA dD mid]
  from inst fresh have own: "Resolve ex_shadow_heap [0, 1] ''x'' (newT []) =
     (Inr (go_int 2), \<lparr>cache = [''x'' \<mapsto> go_int 2], world = []\<rparr>)"
    by (simp add: newT_def)
  from inst[THEN conjunct2, THEN conjunct2, THEN conjunct2, THEN conjunct1, rule_format,
      OF sib dS fresh, of "go_int 1" "newT []"]
  have sibling: "root_first_chain ex_shadow_heap [0, 2] 2 \<and>
     Resolve ex_shadow_heap [0, 2] ''x'' (newT []) =
       (Inr (go_int 1), \<lparr>cache = [''x'' \<mapsto> go_int 1], world = []\<rparr>)"
    by (simp add: newT_def)
  from inst ok have kept: "\<exists>h'. Let' ex_shadow_heap \<lparr>testingTB = testing_T, ctx = 1\<rparr> ''x''
         (\<lambda>t. (Inr (go_int 3), t)) = Inr h' \<and>
         defs (vars (h' ! 0)) ''x'' = Some (\<lambda>t. (Inr (go_int 1), t))"
    by blast
  from own sibling kept show ?thesis by blast
qed

subsection \<open>C5: when a case asks for parallel execution\<close>

text \<open>
  C5, as the code has it. For every leaf test case (a node of a well-formed store, as
  every store built by the API is) run on a \<^verbatim>\<open>*testing.T\<close> or a \<^verbatim>\<open>*testing.B\<close>, the run
  asks the host runner for parallel execution (\<^verbatim>\<open>t.Parallel()\<close>, or \<^verbatim>\<open>b.RunParallel\<close> for a
  benchmark) if and only if the setup of its hooks completes and the parallel flag is
  set on at least one node of the root-to-leaf chain of the leaf, the leaf included.
  The request is made after the setup: a case one of whose hooks panics asks for nothing,
  flag or no flag.
\<close>

theorem parallel_requested_iff_setup_done_and_flag_on_chain:
  assumes "wf_heap h" and "ctx spec < length h" and "testingTB spec \<noteq> testing_other"
  shows "\<exists>chain r. root_first_chain h chain (ctx spec) \<and>
     runTestCase h spec test w = Some (Inr r) \<and>
     (requests_parallel r \<longleftrightarrow>
        setups_in_order (CollectHooks h chain) (newT w) \<noteq> None \<and>
        (\<exists>c\<in>set chain. parallel (h ! c)))"
proof -
  from chain_exists[OF assms(1,2)] obtain chain where
    chain: "root_first_chain h chain (ctx spec)" by blast
  have "\<exists>r. runTestCase h spec test w = Some (Inr r) \<and>
     (requests_parallel r \<longleftrightarrow>
        setups_in_order (CollectHooks h chain) (newT w) \<noteq> None \<and>
        (\<exists>c\<in>set chain. parallel (h ! c)))"
  proof (cases "setups_in_order (CollectHooks h chain) (newT w)")
    case None
    from runTestCase_setup_failed[OF chain None assms(3), of test]
    obtain r where "runTestCase h spec test w = Some (Inr r)" "tb_calls r = []" by blast
    with None show ?thesis by (simp add: requests_parallel_def)
  next
    case (Some res)
    obtain tds t1 where res: "res = (tds, t1)" by (cases res)
    with Some have setups: "setups_in_order (CollectHooks h chain) (newT w) = Some (tds, t1)"
      by simp
    obtain pb t2 where body: "run_body (testingTB spec) test t1 = (pb, t2)"
      by (cases "run_body (testingTB spec) test t1")
    show ?thesis
    proof (cases "pb = None \<or>
        \<not> body_in_goroutines (testingTB spec) (\<exists>c\<in>set chain. parallel (h ! c))")
      case True
      show ?thesis
        unfolding runTestCase_completed[OF chain setups body assms(3) True]
        using setups by (cases "testingTB spec") (simp_all add: requests_parallel_def)
    next
      case False
      then obtain N p where tb: "testingTB spec = testing_B N"
        and par: "\<exists>c\<in>set chain. parallel (h ! c)" and p: "pb = Some p"
        by (cases "testingTB spec") (auto simp: body_in_goroutines_def)
      from body tb p have its: "iterations N test t1 = (Some p, t2)"
        by (simp add: run_body_def)
      show ?thesis
        unfolding runTestCase_killed[OF chain setups tb par its]
        using setups par by (simp add: requests_parallel_def)
    qed
  qed
  with chain show ?thesis by blast
qed

theorem parallel_requested_iff_setup_done_and_flag_on_chain_witness:
  "parallel (ex_parallel_heap ! 0) \<and>
   (\<exists>r. runTestCase ex_parallel_heap ex_leaf (say ''body'') [] = Some (Inr r) \<and>
        requests_parallel r) \<and>
   \<not> parallel (ex_hooks_heap ! 0) \<and> \<not> parallel (ex_hooks_heap ! 1) \<and>
   \<not> parallel (ex_hooks_heap ! 2) \<and>
   (\<exists>r. runTestCase ex_hooks_heap ex_leaf (say ''body'') [] = Some (Inr r) \<and>
        \<not> requests_parallel r) \<and>
   parallel (ex_parallel_panic_heap ! 0) \<and>
   setups_in_order (CollectHooks ex_parallel_panic_heap [0, 1, 2]) (newT []) = None \<and>
   (\<exists>r. runTestCase ex_parallel_panic_heap ex_leaf (say ''body'') [] = Some (Inr r) \<and>
        \<not> requests_parallel r)"
proof -
  have p: "parallel (ex_parallel_heap ! 0)" "parallel (ex_parallel_panic_heap ! 0)"
    and np: "\<not> parallel (ex_hooks_heap ! 0)" "\<not> parallel (ex_hooks_heap ! 1)"
      "\<not> parallel (ex_hooks_heap ! 2)"
    by (simp_all add: ex_parallel_heap_eq ex_parallel_panic_heap_eq ex_hooks_heap_eq
          newContext_def)
  have len: "ctx ex_leaf < length ex_parallel_heap" "ctx ex_leaf < length ex_hooks_heap"
    "ctx ex_leaf < length ex_parallel_panic_heap"
    by (simp_all add: ex_leaf_def ex_parallel_heap_eq ex_hooks_heap_eq
          ex_parallel_panic_heap_eq)
  have s1: "setups_in_order (CollectHooks ex_parallel_heap [0, 1, 2]) (newT []) \<noteq> None"
    by (simp add: CollectHooks_def ex_parallel_heap_eq newContext_def)
  have s2: "setups_in_order (CollectHooks ex_hooks_heap [0, 1, 2]) (newT []) \<noteq> None"
    using ex_hooks_setups by (simp add: CollectHooks_def)
  have s3: "setups_in_order (CollectHooks ex_parallel_panic_heap [0, 1, 2]) (newT []) = None"
    by (simp add: CollectHooks_def ex_parallel_panic_heap_eq newContext_def
          ex_panicking_hook_def)
  from parallel_requested_iff_setup_done_and_flag_on_chain[OF ex_parallel_heap_wf len(1)
      ex_leaf_simps(3), of "say ''body''" "[]"]
  obtain chain r where ch: "root_first_chain ex_parallel_heap chain (ctx ex_leaf)"
    and run: "runTestCase ex_parallel_heap ex_leaf (say ''body'') [] = Some (Inr r)"
    and iff: "requests_parallel r \<longleftrightarrow>
        setups_in_order (CollectHooks ex_parallel_heap chain) (newT []) \<noteq> None \<and>
        (\<exists>c\<in>set chain. parallel (ex_parallel_heap ! c))"
    by blast
  have chain: "chain = [0, 1, 2]"
    using ch[unfolded ex_leaf_simps(1)] ex_parallel_heap_chain by (rule root_first_chain_unique)
  from iff s1 p(1) have "requests_parallel r" unfolding chain by simp
  with run have r1: "\<exists>r. runTestCase ex_parallel_heap ex_leaf (say ''body'') [] = Some (Inr r) \<and>
        requests_parallel r" by blast
  from parallel_requested_iff_setup_done_and_flag_on_chain[OF ex_hooks_heap_wf len(2)
      ex_leaf_simps(3), of "say ''body''" "[]"]
  obtain chain' r' where ch': "root_first_chain ex_hooks_heap chain' (ctx ex_leaf)"
    and run': "runTestCase ex_hooks_heap ex_leaf (say ''body'') [] = Some (Inr r')"
    and iff': "requests_parallel r' \<longleftrightarrow>
        setups_in_order (CollectHooks ex_hooks_heap chain') (newT []) \<noteq> None \<and>
        (\<exists>c\<in>set chain'. parallel (ex_hooks_heap ! c))"
    by blast
  have chain': "chain' = [0, 1, 2]"
    using ch'[unfolded ex_leaf_simps(1)] ex_hooks_heap_chain by (rule root_first_chain_unique)
  from iff' np have "\<not> requests_parallel r'" unfolding chain' by simp
  with run' have r2: "\<exists>r. runTestCase ex_hooks_heap ex_leaf (say ''body'') [] = Some (Inr r) \<and>
        \<not> requests_parallel r" by blast
  from parallel_requested_iff_setup_done_and_flag_on_chain[OF ex_parallel_panic_heap_wf len(3)
      ex_leaf_simps(3), of "say ''body''" "[]"]
  obtain chain'' r'' where ch'': "root_first_chain ex_parallel_panic_heap chain'' (ctx ex_leaf)"
    and run'': "runTestCase ex_parallel_panic_heap ex_leaf (say ''body'') [] = Some (Inr r'')"
    and iff'': "requests_parallel r'' \<longleftrightarrow>
        setups_in_order (CollectHooks ex_parallel_panic_heap chain'') (newT []) \<noteq> None \<and>
        (\<exists>c\<in>set chain''. parallel (ex_parallel_panic_heap ! c))"
    by blast
  have chain'': "chain'' = [0, 1, 2]"
    using ch''[unfolded ex_leaf_simps(1)] ex_parallel_panic_heap_chain
    by (rule root_first_chain_unique)
  from iff'' s3 have "\<not> requests_parallel r''" unfolding chain'' by simp
  with run'' have r3: "\<exists>r. runTestCase ex_parallel_panic_heap ex_leaf (say ''body'') []
        = Some (Inr r) \<and> \<not> requests_parallel r" by blast
  from p np s3 r1 r2 r3 show ?thesis by blast
qed

text \<open>The claim as stated fails: the root has the parallel flag, the hook of the child
  panics during the setup, and the run makes no call on the host runner at all.\<close>

theorem parallel_flag_but_setup_panics_counterexample:
  "parallel (ex_parallel_panic_heap ! 0) \<and>
   root_first_chain ex_parallel_panic_heap [0, 1, 2] (ctx ex_leaf) \<and>
   runTestCase ex_parallel_panic_heap ex_leaf (say ''body'') [] =
     Some (Inr \<lparr>testCaseName = ''child_leaf'',
                tb_calls = [],
                panicked = Some (userPanic ''no setup''),
                teardown_panics = [],
                final = \<lparr>cache = Map.empty, world = [''P'']\<rparr>,
                process_killed = False\<rparr>)"
proof -
  have chain: "root_first_chain ex_parallel_panic_heap [0, 1, 2] (ctx ex_leaf)"
    using ex_parallel_panic_heap_chain by (simp add: ex_leaf_def)
  have hooks: "CollectHooks ex_parallel_panic_heap [0, 1, 2] = [] @ ex_panicking_hook # []"
    by (simp add: CollectHooks_def ex_parallel_panic_heap_eq newContext_def)
  have pre: "setups_in_order [] (newT [] :: (go_value, string list) T) = Some ([], newT [])"
    by simp
  have hook: "ex_panicking_hook (newT []) =
      (Inl (userPanic ''no setup''), \<lparr>cache = Map.empty, world = [''P'']\<rparr>)"
    by (simp add: ex_panicking_hook_def newT_def)
  have flag: "parallel (ex_parallel_panic_heap ! 0)"
    by (simp add: ex_parallel_panic_heap_eq newContext_def)
  have run: "runTestCase ex_parallel_panic_heap ex_leaf (say ''body'') [] =
     Some (Inr \<lparr>testCaseName = ''child_leaf'',
                tb_calls = [],
                panicked = Some (userPanic ''no setup''),
                teardown_panics = [],
                final = \<lparr>cache = Map.empty, world = [''P'']\<rparr>,
                process_killed = False\<rparr>)"
    unfolding runTestCase_setup_panicked[OF chain hooks pre hook ex_leaf_simps(3)]
    by (simp add: ex_parallel_panic_heap_eq newContext_def)
  from flag chain run show ?thesis by simp
qed

subsection \<open>C6: teardown after a panic\<close>

text \<open>
  Where the claim holds. When a hook panics during the setup, and when the test body
  panics on a \<^verbatim>\<open>*testing.T\<close> or in the \<^verbatim>\<open>b.N\<close> loop of a \<^verbatim>\<open>*testing.B\<close> without the parallel
  flag, every teardown action returned by the hooks that ran before the panic is still
  executed, in the reverse of the order in which they were pushed, and the run ends with
  that panic only after them.
\<close>

lemma teardowns_run_after_panic_in_callback:
  assumes "wf_heap h" and "ctx spec < length h" and "testingTB spec \<noteq> testing_other"
  shows "\<exists>chain. root_first_chain h chain (ctx spec) \<and>
     (\<forall>tds t1 p t2.
        setups_in_order (CollectHooks h chain) (newT w) = Some (tds, t1) \<longrightarrow>
        run_body (testingTB spec) test t1 = (Some p, t2) \<longrightarrow>
        \<not> body_in_goroutines (testingTB spec) (\<exists>c\<in>set chain. parallel (h ! c)) \<longrightarrow>
        (\<exists>r. runTestCase h spec test w = Some (Inr r) \<and> panicked r = Some p \<and>
             \<not> process_killed r \<and>
             (teardown_panics r, final r) = teardowns_in_order (rev tds) t2)) \<and>
     (\<forall>pre hook post tds t1 p t2.
        CollectHooks h chain = pre @ hook # post \<longrightarrow>
        setups_in_order pre (newT w) = Some (tds, t1) \<longrightarrow>
        hook t1 = (Inl p, t2) \<longrightarrow>
        (\<exists>r. runTestCase h spec test w = Some (Inr r) \<and> panicked r = Some p \<and>
             \<not> process_killed r \<and>
             (teardown_panics r, final r) = teardowns_in_order (rev tds) t2))"
proof -
  from chain_exists[OF assms(1,2)] obtain chain where
    chain: "root_first_chain h chain (ctx spec)" by blast
  have "\<exists>r. runTestCase h spec test w = Some (Inr r) \<and> panicked r = Some p \<and>
          \<not> process_killed r \<and>
          (teardown_panics r, final r) = teardowns_in_order (rev tds) t2"
    if setups: "setups_in_order (CollectHooks h chain) (newT w) = Some (tds, t1)"
      and body: "run_body (testingTB spec) test t1 = (Some p, t2)"
      and here: "\<not> body_in_goroutines (testingTB spec) (\<exists>c\<in>set chain. parallel (h ! c))"
    for tds t1 p t2
  proof -
    from here have alive: "Some p = None \<or>
        \<not> body_in_goroutines (testingTB spec) (\<exists>c\<in>set chain. parallel (h ! c))" by simp
    show ?thesis
      unfolding runTestCase_completed[OF chain setups body assms(3) alive] by simp
  qed
  moreover have "\<exists>r. runTestCase h spec test w = Some (Inr r) \<and> panicked r = Some p \<and>
          \<not> process_killed r \<and>
          (teardown_panics r, final r) = teardowns_in_order (rev tds) t2"
    if hooks: "CollectHooks h chain = pre @ hook # post"
      and setups: "setups_in_order pre (newT w) = Some (tds, t1)"
      and hook: "hook t1 = (Inl p, t2)" for pre hook post tds t1 p t2
    unfolding runTestCase_setup_panicked[OF chain hooks setups hook assms(3)] by simp
  ultimately show ?thesis using chain by blast
qed

text \<open>
  C6 fails on the code for a benchmark whose chain has the parallel flag. There the
  test body runs in goroutines that \<^verbatim>\<open>b.RunParallel\<close> starts, and when an iteration of the
  body panics the process is killed: the run ends in the state the panicking iteration
  left, no teardown action is executed, and the deferred \<^verbatim>\<open>b.StopTimer()\<close> is not called
  either.
\<close>

theorem goroutine_panic_skips_teardown:
  assumes "wf_heap h" and "ctx spec < length h" and "testingTB spec = testing_B N"
  shows "\<exists>chain. root_first_chain h chain (ctx spec) \<and>
     (\<forall>tds t1 p t2.
        (\<exists>c\<in>set chain. parallel (h ! c)) \<longrightarrow>
        setups_in_order (CollectHooks h chain) (newT w) = Some (tds, t1) \<longrightarrow>
        iterations N test t1 = (Some p, t2) \<longrightarrow>
        (\<exists>r. runTestCase h spec test w = Some (Inr r) \<and> process_killed r \<and>
             panicked r = Some p \<and> teardown_panics r = [] \<and> final r = t2 \<and>
             tb_StopTimer \<notin> set (tb_calls r)))"
proof -
  from chain_exists[OF assms(1,2)] obtain chain where
    chain: "root_first_chain h chain (ctx spec)" by blast
  have "\<exists>r. runTestCase h spec test w = Some (Inr r) \<and> process_killed r \<and>
          panicked r = Some p \<and> teardown_panics r = [] \<and> final r = t2 \<and>
          tb_StopTimer \<notin> set (tb_calls r)"
    if par: "\<exists>c\<in>set chain. parallel (h ! c)"
      and setups: "setups_in_order (CollectHooks h chain) (newT w) = Some (tds, t1)"
      and body: "iterations N test t1 = (Some p, t2)" for tds t1 p t2
    unfolding runTestCase_killed[OF chain setups assms(3) par body] by simp
  with chain show ?thesis by blast
qed

theorem goroutine_panic_skips_teardown_witness:
  "\<exists>r. runTestCase ex_parallel_hooks_heap ex_parallel_bench3_leaf ex_flaky_body []
          = Some (Inr r) \<and>
       process_killed r \<and> panicked r = Some (userPanic ''boom'') \<and>
       teardown_panics r = [] \<and> tb_calls r = [tb_ResetTimer, tb_RunParallel] \<and>
       world (final r) = [''B1'', ''B2'', ''body'', ''body'']"
proof -
  have len: "ctx ex_parallel_bench3_leaf < length ex_parallel_hooks_heap"
    and tb: "testingTB ex_parallel_bench3_leaf = testing_B 3"
    and leaf: "ctx ex_parallel_bench3_leaf = 2"
    by (simp_all add: ex_parallel_bench3_leaf_def ex_parallel_hooks_heap_eq)
  from goroutine_panic_skips_teardown[OF ex_parallel_hooks_heap_wf len tb, of "[]" ex_flaky_body]
  obtain chain where ch: "root_first_chain ex_parallel_hooks_heap chain (ctx ex_parallel_bench3_leaf)"
    and run: "\<forall>tds t1 p t2.
        (\<exists>c\<in>set chain. parallel (ex_parallel_hooks_heap ! c)) \<longrightarrow>
        setups_in_order (CollectHooks ex_parallel_hooks_heap chain) (newT []) = Some (tds, t1) \<longrightarrow>
        iterations 3 ex_flaky_body t1 = (Some p, t2) \<longrightarrow>
        (\<exists>r. runTestCase ex_parallel_hooks_heap ex_parallel_bench3_leaf ex_flaky_body []
               = Some (Inr r) \<and> process_killed r \<and>
             panicked r = Some p \<and> teardown_panics r = [] \<and> final r = t2 \<and>
             tb_StopTimer \<notin> set (tb_calls r))"
    by blast
  have chain: "chain = [0, 1, 2]"
    using ch[unfolded leaf] ex_parallel_hooks_heap_chain by (rule root_first_chain_unique)
  have par: "\<exists>c\<in>set [0, 1, 2]. parallel (ex_parallel_hooks_heap ! c)"
    by (simp add: ex_parallel_hooks_heap_eq newContext_def)
  have three: "(3::nat) = Suc (Suc (Suc 0))" by simp
  have body: "iterations 3 ex_flaky_body \<lparr>cache = Map.empty, world = [''B1'', ''B2'']\<rparr> =
      (Some (userPanic ''boom''),
       \<lparr>cache = Map.empty, world = [''B1'', ''B2'', ''body'', ''body'']\<rparr>)"
    unfolding three by (simp add: ex_flaky_body_def)
  from run[unfolded chain, rule_format, OF par ex_parallel_hooks_setups body]
  obtain r where r: "runTestCase ex_parallel_hooks_heap ex_parallel_bench3_leaf ex_flaky_body []
          = Some (Inr r)" "process_killed r" "panicked r = Some (userPanic ''boom'')"
    "teardown_panics r = []"
    "final r = \<lparr>cache = Map.empty, world = [''B1'', ''B2'', ''body'', ''body'']\<rparr>"
    by blast
  have calls: "tb_calls r = [tb_ResetTimer, tb_RunParallel]"
    using r(1)
    unfolding runTestCase_killed[OF ch[unfolded chain] ex_parallel_hooks_setups tb par body]
    by auto
  from r calls show ?thesis by auto
qed

subsection \<open>C7: the iterations of a benchmark share one per-case context\<close>

text \<open>
  C7, as the code has it. For a benchmark, \<^verbatim>\<open>runTestCase\<close> creates the per-case context,
  and with it the VariableResolver, once per call of the function handed to \<^verbatim>\<open>b.Run\<close>,
  before the setup and outside the iteration loop; every iteration of the test body is
  called on that same context, each in the state the previous one left. So a variable
  value that is memoized when some iteration starts, by the setup or by an earlier
  iteration, is still memoized when any later iteration starts, and resolves there to
  the stored value without its factory being invoked, as long as the test body leaves a
  stored value in place (user code reaches the cache only by resolving names, which
  removes nothing).
\<close>

theorem benchmark_iterations_share_resolver:
  assumes "wf_heap h" and "ctx spec < length h" and "testingTB spec = testing_B N"
  shows "\<exists>chain. root_first_chain h chain (ctx spec) \<and>
     (\<forall>tds t1. setups_in_order (CollectHooks h chain) (newT w) = Some (tds, t1) \<longrightarrow>
        (\<exists>r pb t2. iterations N test t1 = (pb, t2) \<and>
             runTestCase h spec test w = Some (Inr r) \<and> panicked r = pb \<and>
             (process_killed r \<longrightarrow> final r = t2) \<and>
             (\<not> process_killed r \<longrightarrow>
                (teardown_panics r, final r) = teardowns_in_order (rev tds) t2)) \<and>
        (\<forall>name v i ti j tj.
             i \<le> j \<longrightarrow>
             iterations i test t1 = (None, ti) \<longrightarrow>
             iterations j test t1 = (None, tj) \<longrightarrow>
             cache ti name = Some v \<longrightarrow>
             (\<forall>t p t'. test t = (p, t') \<longrightarrow> cache t name = Some v \<longrightarrow> cache t' name = Some v) \<longrightarrow>
             lookup_definition h (rev chain) name \<noteq> None \<longrightarrow>
             cache tj name = Some v \<and> Resolve h chain name tj = (Inr v, tj)))"
proof -
  from chain_exists[OF assms(1,2)] obtain chain where
    chain: "root_first_chain h chain (ctx spec)" by blast
  have tb: "testingTB spec \<noteq> testing_other" using assms(3) by simp
  have run: "\<exists>r pb t2. iterations N test t1 = (pb, t2) \<and>
             runTestCase h spec test w = Some (Inr r) \<and> panicked r = pb \<and>
             (process_killed r \<longrightarrow> final r = t2) \<and>
             (\<not> process_killed r \<longrightarrow>
                (teardown_panics r, final r) = teardowns_in_order (rev tds) t2)"
    if setups: "setups_in_order (CollectHooks h chain) (newT w) = Some (tds, t1)" for tds t1
  proof -
    obtain pb t2 where its: "iterations N test t1 = (pb, t2)"
      by (cases "iterations N test t1")
    with assms(3) have body: "run_body (testingTB spec) test t1 = (pb, t2)"
      by (simp add: run_body_def)
    show ?thesis
    proof (cases "pb = None \<or>
        \<not> body_in_goroutines (testingTB spec) (\<exists>c\<in>set chain. parallel (h ! c))")
      case True
      from runTestCase_completed[OF chain setups body tb True] its show ?thesis by simp
    next
      case False
      then obtain p where par: "\<exists>c\<in>set chain. parallel (h ! c)" and p: "pb = Some p"
        using assms(3) by (auto simp: body_in_goroutines_def)
      from runTestCase_killed[OF chain setups assms(3) par its[unfolded p]] its p
      show ?thesis by simp
    qed
  qed
  have memo: "cache tj name = Some v \<and> Resolve h chain name tj = (Inr v, tj)"
    if "i \<le> j" "iterations i test t1 = (None, ti)" "iterations j test t1 = (None, tj)"
      "cache ti name = Some v"
      "\<forall>t p t'. test t = (p, t') \<longrightarrow> cache t name = Some v \<longrightarrow> cache t' name = Some v"
      "lookup_definition h (rev chain) name \<noteq> None"
    for name v i ti j tj t1
  proof -
    from that(5) have keeps:
      "\<And>t p t'. test t = (p, t') \<Longrightarrow> cache t name = Some v \<Longrightarrow> cache t' name = Some v"
      by blast
    from iterations_later_sees_cache[OF keeps that(1,2,3,4)]
    have stored: "cache tj name = Some v" by simp
    from that(6) obtain f where "lookup_definition h (rev chain) name = Some f" by blast
    from Resolve_stored[OF this stored] stored show ?thesis by simp
  qed
  from chain run memo show ?thesis by blast
qed

lemma ex_reading_body_keeps:
  "ex_reading_body t = (p, t') \<Longrightarrow> cache t ''x'' = Some (go_int 0) \<Longrightarrow>
   cache t' ''x'' = Some (go_int 0)"
  unfolding ex_reading_body_def
  by (auto simp: Resolve_def ex_bench_lookup[simplified])

theorem benchmark_iterations_share_resolver_witness:
  "(\<exists>r. runTestCase ex_bench_heap ex_bench_leaf ex_reading_body [] = Some (Inr r) \<and>
        panicked r = None \<and>
        final r = \<lparr>cache = [''x'' \<mapsto> go_int 0],
                   world = [''made x'', ''read 0'', ''read 0'']\<rparr>) \<and>
   iterations 1 ex_reading_body (newT []) =
     (None, \<lparr>cache = [''x'' \<mapsto> go_int 0], world = [''made x'', ''read 0'']\<rparr>) \<and>
   iterations 2 ex_reading_body (newT []) =
     (None, \<lparr>cache = [''x'' \<mapsto> go_int 0], world = [''made x'', ''read 0'', ''read 0'']\<rparr>) \<and>
   Resolve ex_bench_heap [0, 1] ''x''
       \<lparr>cache = [''x'' \<mapsto> go_int 0], world = [''made x'', ''read 0'', ''read 0'']\<rparr> =
     (Inr (go_int 0),
      \<lparr>cache = [''x'' \<mapsto> go_int 0], world = [''made x'', ''read 0'', ''read 0'']\<rparr>)"
proof -
  have len: "ctx ex_bench_leaf < length ex_bench_heap"
    and tb: "testingTB ex_bench_leaf = testing_B 2"
    and leaf: "ctx ex_bench_leaf = 1"
    by (simp_all add: ex_bench_leaf_def ex_bench_heap_eq)
  from benchmark_iterations_share_resolver[OF ex_bench_heap_wf len tb, of "[]" ex_reading_body]
  obtain chain where ch: "root_first_chain ex_bench_heap chain (ctx ex_bench_leaf)"
    and all: "\<forall>tds t1.
        setups_in_order (CollectHooks ex_bench_heap chain) (newT []) = Some (tds, t1) \<longrightarrow>
        (\<exists>r pb t2. iterations 2 ex_reading_body t1 = (pb, t2) \<and>
             runTestCase ex_bench_heap ex_bench_leaf ex_reading_body [] = Some (Inr r) \<and>
             panicked r = pb \<and>
             (process_killed r \<longrightarrow> final r = t2) \<and>
             (\<not> process_killed r \<longrightarrow>
                (teardown_panics r, final r) = teardowns_in_order (rev tds) t2)) \<and>
        (\<forall>name v i ti j tj.
             i \<le> j \<longrightarrow>
             iterations i ex_reading_body t1 = (None, ti) \<longrightarrow>
             iterations j ex_reading_body t1 = (None, tj) \<longrightarrow>
             cache ti name = Some v \<longrightarrow>
             (\<forall>t p t'. ex_reading_body t = (p, t') \<longrightarrow> cache t name = Some v \<longrightarrow>
                cache t' name = Some v) \<longrightarrow>
             lookup_definition ex_bench_heap (rev chain) name \<noteq> None \<longrightarrow>
             cache tj name = Some v \<and> Resolve ex_bench_heap chain name tj = (Inr v, tj))"
    by blast
  have chain: "chain = [0, 1]"
    using ch[unfolded leaf] ex_bench_heap_chain by (rule root_first_chain_unique)
  have setups: "setups_in_order (CollectHooks ex_bench_heap [0, 1]) (newT []) =
      Some ([], newT [])"
    by (simp add: CollectHooks_def ex_bench_heap_eq newContext_def)
  have one: "iterations 1 ex_reading_body (newT []) =
     (None, \<lparr>cache = [''x'' \<mapsto> go_int 0], world = [''made x'', ''read 0'']\<rparr>)"
    by (simp add: ex_reading_body_first)
  have two: "iterations 2 ex_reading_body (newT []) =
     (None, \<lparr>cache = [''x'' \<mapsto> go_int 0], world = [''made x'', ''read 0'', ''read 0'']\<rparr>)"
    by (simp add: numeral_2_eq_2 ex_reading_body_first ex_reading_body_again)
  have stored: "cache \<lparr>cache = [''x'' \<mapsto> go_int 0], world = [''made x'', ''read 0'']\<rparr> ''x''
      = Some (go_int 0)" by simp
  have known: "lookup_definition ex_bench_heap (rev [0, 1]) ''x'' \<noteq> None"
    using ex_bench_lookup by simp
  note inst = all[unfolded chain, rule_format, OF setups]
  from inst[THEN conjunct1] two
  have run: "\<exists>r. runTestCase ex_bench_heap ex_bench_leaf ex_reading_body [] = Some (Inr r) \<and>
        panicked r = None \<and>
        final r = \<lparr>cache = [''x'' \<mapsto> go_int 0],
                   world = [''made x'', ''read 0'', ''read 0'']\<rparr>"
    by auto
  have le: "(1::nat) \<le> 2" by simp
  from inst[THEN conjunct2, rule_format, OF le one two stored ex_reading_body_keeps known]
  have seen: "Resolve ex_bench_heap [0, 1] ''x''
       \<lparr>cache = [''x'' \<mapsto> go_int 0], world = [''made x'', ''read 0'', ''read 0'']\<rparr> =
     (Inr (go_int 0),
      \<lparr>cache = [''x'' \<mapsto> go_int 0], world = [''made x'', ''read 0'', ''read 0'']\<rparr>)"
    by simp
  from run one two seen show ?thesis by blast
qed

text \<open>The claim as stated fails: with \<^verbatim>\<open>b.N = 2\<close> the factory of \<^verbatim>\<open>x\<close> runs once, in the
  first iteration, and the second iteration reads the value the first one memoized.\<close>

theorem benchmark_second_iteration_counterexample:
  "runTestCase ex_bench_heap ex_bench_leaf ex_reading_body [] =
     Some (Inr \<lparr>testCaseName = ''bench'',
                tb_calls = [tb_ResetTimer, tb_StopTimer],
                panicked = None,
                teardown_panics = [],
                final = \<lparr>cache = [''x'' \<mapsto> go_int 0],
                         world = [''made x'', ''read 0'', ''read 0'']\<rparr>,
                process_killed = False\<rparr>)"
proof -
  have setups: "setups_in_order (CollectHooks ex_bench_heap [0, 1]) (newT []) =
      Some ([], newT [])"
    by (simp add: CollectHooks_def ex_bench_heap_eq newContext_def)
  have two: "(2::nat) = Suc (Suc 0)" by simp
  have body: "run_body (testingTB ex_bench_leaf) ex_reading_body (newT []) =
      (None, \<lparr>cache = [''x'' \<mapsto> go_int 0], world = [''made x'', ''read 0'', ''read 0'']\<rparr>)"
    unfolding ex_bench_leaf_def two
    by (simp add: run_body_def ex_reading_body_first ex_reading_body_again)
  have chain: "root_first_chain ex_bench_heap [0, 1] (ctx ex_bench_leaf)"
    using ex_bench_heap_chain by (simp add: ex_bench_leaf_def)
  have tb: "testingTB ex_bench_leaf \<noteq> testing_other" by (simp add: ex_bench_leaf_def)
  have alive: "(None :: panic option) = None \<or>
      \<not> body_in_goroutines (testingTB ex_bench_leaf)
          (\<exists>c\<in>set [0, 1]. parallel (ex_bench_heap ! c))" by simp
  show ?thesis
    unfolding runTestCase_completed[OF chain setups body tb alive]
    by (simp add: ex_bench_leaf_def ex_bench_heap_eq newContext_def)
qed

subsection \<open>C8: the values LetValue accepts\<close>

text \<open>
  C8, as the code has it. \<^verbatim>\<open>LetValue\<close> with a value whose kind is in the table
  \<^verbatim>\<open>acceptedConstKind\<close> (string, bool, the int and uint kinds of fixed or native size, the
  float and complex kinds; not uintptr), called on a scope that is not immutable,
  succeeds and defines under the name a factory that returns the value and changes
  nothing else; on an immutable scope the same call panics with \<^verbatim>\<open>varWarning\<close>. With a
  value of any other kind (invalid as for nil, uintptr, array, chan, func, interface,
  map, pointer, slice, struct, unsafe pointer) the call panics with the message of
  \<^verbatim>\<open>LetValue\<close>.
\<close>

theorem LetValue_outcomes:
  "(kindOf v \<notin> acceptedConstKind \<longrightarrow>
      LetValue kindOf h spec name v = Inl panicMessageForLetValue) \<and>
   (kindOf v \<in> acceptedConstKind \<longrightarrow> immutable (h ! ctx spec) \<longrightarrow>
      LetValue kindOf h spec name v = Inl varWarning) \<and>
   (kindOf v \<in> acceptedConstKind \<longrightarrow> \<not> immutable (h ! ctx spec) \<longrightarrow> ctx spec < length h \<longrightarrow>
      (\<exists>h' factory. LetValue kindOf h spec name v = Inr h' \<and>
         defs (vars (h' ! ctx spec)) name = Some factory \<and>
         (\<forall>t. factory t = (Inr v, t)))) \<and>
   (kindOf v \<notin> acceptedConstKind \<longleftrightarrow>
      kindOf v \<in> {reflect_Invalid, reflect_Uintptr, reflect_Array, reflect_Chan, reflect_Func,
        reflect_Interface, reflect_Map, reflect_Ptr, reflect_Slice, reflect_Struct,
        reflect_UnsafePointer})"
proof (intro conjI impI)
  show "LetValue kindOf h spec name v = Inl panicMessageForLetValue"
    if "kindOf v \<notin> acceptedConstKind"
    using that by (simp add: LetValue_def)
  show "LetValue kindOf h spec name v = Inl varWarning"
    if "kindOf v \<in> acceptedConstKind" "immutable (h ! ctx spec)"
    using that by (simp add: LetValue_def Let'_def)
  show "\<exists>h' factory. LetValue kindOf h spec name v = Inr h' \<and>
          defs (vars (h' ! ctx spec)) name = Some factory \<and> (\<forall>t. factory t = (Inr v, t))"
    if "kindOf v \<in> acceptedConstKind" "\<not> immutable (h ! ctx spec)" "ctx spec < length h"
    using that by (rule LetValue_defines)
  show "kindOf v \<notin> acceptedConstKind \<longleftrightarrow>
      kindOf v \<in> {reflect_Invalid, reflect_Uintptr, reflect_Array, reflect_Chan, reflect_Func,
        reflect_Interface, reflect_Map, reflect_Ptr, reflect_Slice, reflect_Struct,
        reflect_UnsafePointer}"
    by (rule rejected_kinds)
qed

theorem LetValue_outcomes_witness:
  "kind_of (go_int 42) \<in> acceptedConstKind \<and>
   \<not> immutable (ex_root_heap ! ctx ex_root) \<and> ctx ex_root < length ex_root_heap \<and>
   (\<exists>h' factory. LetValue kind_of ex_root_heap ex_root ''n'' (go_int 42) = Inr h' \<and>
      defs (vars (h' ! ctx ex_root)) ''n'' = Some factory \<and>
      factory (newT []) = (Inr (go_int 42), newT [])) \<and>
   immutable (ex_opened_heap ! ctx ex_root) \<and>
   LetValue kind_of ex_opened_heap ex_root ''n'' (go_int 42) = Inl varWarning \<and>
   kind_of (go_slice [go_int 1, go_int 2]) \<notin> acceptedConstKind \<and>
   LetValue kind_of ex_root_heap ex_root ''m'' (go_slice [go_int 1, go_int 2])
     = Inl panicMessageForLetValue"
proof -
  have k: "kind_of (go_int 42) \<in> acceptedConstKind"
    and s: "kind_of (go_slice [go_int 1, go_int 2]) \<notin> acceptedConstKind"
    by (simp_all add: acceptedConstKind_def)
  have m: "\<not> immutable (ex_root_heap ! ctx ex_root)" "ctx ex_root < length ex_root_heap"
    and i: "immutable (ex_opened_heap ! ctx ex_root)"
    by (simp_all add: ex_root_heap_eq ex_opened_heap_eq ex_root_eq newContext_def)
  from LetValue_outcomes[of kind_of "go_int 42" ex_root_heap ex_root "''n''"]
    LetValue_outcomes[of kind_of "go_int 42" ex_opened_heap ex_root "''n''"]
    LetValue_outcomes[of kind_of "go_slice [go_int 1, go_int 2]" ex_root_heap ex_root "''m''"]
    k s m i
  show ?thesis by blast
qed

text \<open>The claim as stated fails in two places: a value of a scalar kind passed on an
  immutable scope makes the call panic, and a uintptr, which is a numeric kind of Go,
  is not in the table.\<close>

theorem LetValue_scalar_counterexample:
  "kind_of (go_int 42) = reflect_Int \<and>
   ex_opened_heap = fst (newSubSpec ex_root_heap ex_root ''child'') \<and>
   LetValue kind_of ex_opened_heap ex_root ''n'' (go_int 42) = Inl varWarning \<and>
   kind_of (go_uintptr 7) = reflect_Uintptr \<and>
   LetValue kind_of ex_root_heap ex_root ''p'' (go_uintptr 7) = Inl panicMessageForLetValue"
proof -
  have "ex_opened_heap = fst (newSubSpec ex_root_heap ex_root ''child'')"
    by (simp add: ex_opened_heap_def)
  moreover have "LetValue kind_of ex_opened_heap ex_root ''n'' (go_int 42) = Inl varWarning"
    by (simp add: ex_opened_heap_eq ex_root_eq newContext_def LetValue_def Let'_def
          acceptedConstKind_def)
  moreover have
    "LetValue kind_of ex_root_heap ex_root ''p'' (go_uintptr 7) = Inl panicMessageForLetValue"
    by (simp add: LetValue_def acceptedConstKind_def)
  ultimately show ?thesis by simp
qed

subsection \<open>C10: NoSideEffect and Parallel\<close>

text \<open>
  C10. Calling \<^verbatim>\<open>NoSideEffect\<close> on a Spec is the same as calling \<^verbatim>\<open>Parallel\<close> on it: on a
  scope that is not immutable both set the parallel flag of the scope to true and change
  nothing else, and on an immutable scope both panic with \<^verbatim>\<open>parallelWarn\<close>.
\<close>

theorem NoSideEffect_same_as_Parallel:
  "NoSideEffect h spec = Parallel h spec \<and>
   (immutable (h ! ctx spec) \<longrightarrow>
      NoSideEffect h spec = Inl parallelWarn \<and> Parallel h spec = Inl parallelWarn) \<and>
   (\<not> immutable (h ! ctx spec) \<longrightarrow>
      NoSideEffect h spec = Inr (h[ctx spec := (h ! ctx spec)\<lparr>parallel := True\<rparr>]) \<and>
      Parallel h spec = Inr (h[ctx spec := (h ! ctx spec)\<lparr>parallel := True\<rparr>]))"
  by (simp add: NoSideEffect_def Parallel_def)

theorem NoSideEffect_same_as_Parallel_witness:
  "\<not> immutable (ex_root_heap ! ctx ex_root) \<and>
   NoSideEffect ex_root_heap ex_root = Inr [newContext\<lparr>parallel := True\<rparr>] \<and>
   Parallel ex_root_heap ex_root = Inr [newContext\<lparr>parallel := True\<rparr>] \<and>
   immutable (ex_opened_heap ! ctx ex_root) \<and>
   NoSideEffect ex_opened_heap ex_root = Inl parallelWarn \<and>
   Parallel ex_opened_heap ex_root = Inl parallelWarn"
  using NoSideEffect_same_as_Parallel[of ex_root_heap ex_root]
    NoSideEffect_same_as_Parallel[of ex_opened_heap ex_root]
  by (simp add: ex_root_heap_eq ex_opened_heap_eq ex_root_eq newContext_def)

end
